theory Spec2Isabelle
  imports Main
begin

section \<open>JavaScript values, thrown values and action results\<close>

text \<open>
  The two kinds of JavaScript value that meet in the ownership test of
  \<^verbatim>\<open>sendInvitations\<close>: the negation \<^verbatim>\<open>!x\<close> yields a boolean, the token
  secret is a string, and \<^verbatim>\<open>===\<close> compares without conversion.
\<close>

datatype jsval = JBool bool | JStr string

fun truthy :: "jsval \<Rightarrow> bool" where
  "truthy (JBool b) = b"
| "truthy (JStr s) = (s \<noteq> [])"

definition js_not :: "jsval \<Rightarrow> jsval" where
  "js_not v = JBool (\<not> truthy v)"

fun strict_eq :: "jsval \<Rightarrow> jsval \<Rightarrow> bool" where
  "strict_eq (JBool a) (JBool b) = (a = b)"
| "strict_eq (JStr a) (JStr b) = (a = b)"
| "strict_eq _ _ = False"

text \<open>
  What a \<^verbatim>\<open>throw\<close> or a rejected promise carries: \<^verbatim>\<open>null\<close> (thrown when the
  lock is not acquired), a \<^verbatim>\<open>TypeError\<close> (a property read on \<^verbatim>\<open>null\<close> or
  \<^verbatim>\<open>undefined\<close>), a \<^verbatim>\<open>SyntaxError\<close> (\<^verbatim>\<open>JSON.parse\<close>), an
  \<^verbatim>\<open>RPCException\<close> with its error code, or any other error object of a
  collaborator.
\<close>

datatype thrown = ThrownNull | TypeError | SyntaxError | RPCException int | OtherError

datatype 'a completion = Returned 'a | Thrown thrown

datatype status = succeeded | loaded | failed

text \<open>
  The object an action returns: \<^verbatim>\<open>{status, error, data}\<close>, the last two
  optional. A function that ends without \<^verbatim>\<open>return\<close> yields \<^verbatim>\<open>undefined\<close>,
  which is \<open>None\<close> at the type \<open>'d outcome option\<close>.
\<close>

record 'd outcome =
  oc_status :: status
  oc_error :: "thrown option"
  oc_data :: "'d option"

definition statusOnly :: "status \<Rightarrow> 'd outcome" where
  "statusOnly s = \<lparr>oc_status = s, oc_error = None, oc_data = None\<rparr>"

definition failedWith :: "thrown \<Rightarrow> 'd outcome" where
  "failedWith e = \<lparr>oc_status = failed, oc_error = Some e, oc_data = None\<rparr>"

definition withData :: "status \<Rightarrow> 'd \<Rightarrow> 'd outcome" where
  "withData s d = \<lparr>oc_status = s, oc_error = None, oc_data = Some d\<rparr>"

section \<open>Provider side: data model\<close>

text \<open>
  A slot \<^verbatim>\<open>{id, open, token}\<close>; \<open>slot_token\<close> is \<^verbatim>\<open>slot.token.token\<close>, and
  \<open>None\<close> when \<^verbatim>\<open>slot.token\<close> is \<^verbatim>\<open>null\<close> or \<^verbatim>\<open>undefined\<close>. An
  appointment carries its slots; \<open>ap_timestamp\<close> is the time value of
  \<^verbatim>\<open>new Date(oa.timestamp)\<close> in milliseconds since the epoch, and \<open>None\<close> when
  that date is invalid: every comparison with an invalid date is false.
\<close>

record slot =
  slot_id :: string
  slot_open :: bool
  slot_token :: "string option"

record appointment =
  ap_id :: string
  ap_timestamp :: "int option"
  ap_slotData :: "slot list"

text \<open>
  A queue token. \<open>tk_token\<close> is the secret \<^verbatim>\<open>token.token\<close>; \<open>tk_data\<close> is the
  decrypted payload \<^verbatim>\<open>{id, publicKey}\<close>; the fields that the code tests against
  \<^verbatim>\<open>undefined\<close> are options. An absent or unreadable \<^verbatim>\<open>expiresAt\<close> is
  \<open>None\<close>: the date is then invalid and every comparison with it is false.
\<close>

record tokenData =
  td_id :: string
  td_publicKey :: string

record qtoken =
  tk_token :: string
  tk_queue :: string
  tk_encryptedData :: string
  tk_data :: "tokenData option"
  tk_grantID :: "string option"
  tk_slotIDs :: "string list option"
  tk_expiresAt :: "int option"

text \<open>The capability object that is signed for one slot of one token.\<close>

record grant =
  gr_objectID :: string
  gr_grantID :: "string option"
  gr_singleUse :: bool
  gr_expiresAt :: "int option"
  gr_permissions :: "(string list \<times> string list) list"

text \<open>
  An offer is an appointment restricted to the slots of one token, with one signed
  grant per slot. Signatures are opaque: a signature is represented by the content it
  signs.
\<close>

record offer =
  of_appointment :: appointment
  of_slotData :: "slot list"
  of_grants :: "grant list"

record submitData =
  sd_id :: string
  sd_offers :: "offer list"
  sd_permissions :: "(string list \<times> string list) list"

datatype call =
    ReturnTokens "string list"
  | GetQueueTokens nat
  | SignGrant grant
  | BulkStoreData "submitData list"

text \<open>
  The collaborators of one scheduling cycle: the lock, the clock, the remote service,
  the cryptography and the random generator. The clock is read once per cycle. A remote
  call that can only succeed or throw is given by the error it throws, if any.
  \<open>getQueueTokens\<close> answers \<^verbatim>\<open>null\<close> (\<open>Returned None\<close>), a list of token
  lists, or throws. \<open>ecdhDecrypt\<close> stands for the decryption and the parse of its
  result: \<open>None\<close> when either throws. \<open>randomBytes\<close> and the generation of a
  token's key pair are indexed by the token object that receives the result.
\<close>

record env =
  lock_ok :: bool
  now :: int
  returnTokens_err :: "thrown option"
  getQueueTokens :: "nat \<Rightarrow> qtoken list list option completion"
  jsonParseKey :: "string \<Rightarrow> string option"
  ecdhDecrypt :: "qtoken \<Rightarrow> string option \<Rightarrow> tokenData option"
  generateECDHKeyPair_err :: "nat \<Rightarrow> thrown option"
  randomBytes :: "nat \<Rightarrow> string"
  sign_ok :: "grant \<Rightarrow> bool"
  ecdhEncrypt_ok :: "qtoken \<Rightarrow> offer list \<Rightarrow> bool"
  signEnvelope_ok :: "qtoken \<Rightarrow> offer list \<Rightarrow> bool"
  bulkStoreData_err :: "thrown option"

record verifiedProviderData =
  queuePrivateKeys :: "(string \<times> string) list"

record keyPairs =
  signing_publicKey :: string

text \<open>The two keys of the local store that the cycle reads and writes.\<close>

record store =
  appointments_open :: "appointment list"
  tokens_open :: "qtoken list"

definition hour :: int where
  "hour = 1000 * 60 * 60"

definition overbookingFactor :: int where
  "overbookingFactor = 5"

section \<open>Provider side: \<^verbatim>\<open>sendInvitations\<close>\<close>

fun getQueuePrivateKey :: "env \<Rightarrow> string \<Rightarrow> (string \<times> string) list \<Rightarrow> string option completion" where
  "getQueuePrivateKey e queueID [] = Returned None"
| "getQueuePrivateKey e queueID ((qid, privateKey) # rest) =
     (if qid = queueID then
        (case jsonParseKey e privateKey of
           None \<Rightarrow> Thrown SyntaxError
         | Some k \<Rightarrow> Returned (Some k))
      else getQueuePrivateKey e queueID rest)"

definition isExpired :: "int \<Rightarrow> qtoken \<Rightarrow> bool" where
  "isExpired t token = (case tk_expiresAt token of None \<Rightarrow> False | Some x \<Rightarrow> x \<le> t)"

definition isLive :: "int \<Rightarrow> qtoken \<Rightarrow> bool" where
  "isLive t token = (case tk_expiresAt token of None \<Rightarrow> False | Some x \<Rightarrow> x > t)"

definition countOpenSlots :: "appointment list \<Rightarrow> nat" where
  "countOpenSlots aps = sum_list (map (\<lambda>ap. length (filter slot_open (ap_slotData ap))) aps)"

text \<open>
  \<^verbatim>\<open>Math.floor(Math.max(0, openSlots * overbookingFactor - openTokens.length))\<close>
\<close>

definition refillCount :: "nat \<Rightarrow> nat \<Rightarrow> nat" where
  "refillCount openSlots liveCount =
     nat (max 0 (int openSlots * overbookingFactor - int liveCount))"

text \<open>
  Token objects live in a heap (a list indexed by reference) and the pool is a list of
  references, because the refill loop can put the same object into the pool twice and
  the scheduling loop mutates the objects in place.

  The inner loop over one token list of the allocator's answer: a token that does not
  decrypt is skipped; a queue key that does not parse, or a key pair that cannot be
  generated, throws out of the loop.
\<close>

fun decryptList :: "env \<Rightarrow> verifiedProviderData \<Rightarrow> qtoken list \<Rightarrow> qtoken list \<times> nat list
    \<Rightarrow> (qtoken list \<times> nat list) completion" where
  "decryptList e vpd [] (heap, validTokens) = Returned (heap, validTokens)"
| "decryptList e vpd (token # rest) (heap, validTokens) =
     (case getQueuePrivateKey e (tk_queue token) (queuePrivateKeys vpd) of
        Thrown x \<Rightarrow> Thrown x
      | Returned privateKey \<Rightarrow>
          (case ecdhDecrypt e token privateKey of
             None \<Rightarrow> decryptList e vpd rest (heap, validTokens)
           | Some d \<Rightarrow>
               (case generateECDHKeyPair_err e (length heap) of
                  Some x \<Rightarrow> Thrown x
                | None \<Rightarrow>
                    decryptList e vpd rest
                      (heap @ [token\<lparr>tk_data := Some d,
                                     tk_grantID := Some (randomBytes e (length heap)),
                                     tk_slotIDs := Some [],
                                     tk_expiresAt := Some (now e + hour * 24)\<rparr>],
                       validTokens @ [length heap]))))"

text \<open>
  The outer loop: after each token list the pool becomes
  \<^verbatim>\<open>[...openTokens, ...validTokens]\<close>, and \<^verbatim>\<open>validTokens\<close> is not reset between
  lists.
\<close>

fun decryptLists :: "env \<Rightarrow> verifiedProviderData \<Rightarrow> qtoken list list
    \<Rightarrow> qtoken list \<times> nat list \<times> nat list \<Rightarrow> (qtoken list \<times> nat list) completion" where
  "decryptLists e vpd [] (heap, validTokens, openTokens) = Returned (heap, openTokens)"
| "decryptLists e vpd (tokenList # rest) (heap, validTokens, openTokens) =
     (case decryptList e vpd tokenList (heap, validTokens) of
        Thrown x \<Rightarrow> Thrown x
      | Returned (heap', validTokens') \<Rightarrow>
          decryptLists e vpd rest (heap', validTokens', openTokens @ validTokens'))"

text \<open>
  The refill step (the first part of the inner \<^verbatim>\<open>try\<close>). It ends the cycle with an
  outcome, or goes on with the heap and the pool.
\<close>

datatype refillResult =
    RefillReturn "unit outcome" "call list"
  | RefillDone "qtoken list" "nat list" "call list"

definition refill :: "env \<Rightarrow> verifiedProviderData \<Rightarrow> nat \<Rightarrow> qtoken list \<Rightarrow> refillResult" where
  "refill e vpd openSlots openTokens =
     (let n = refillCount openSlots (length openTokens);
          pool = [0 ..< length openTokens]
      in if n > 0 \<and> length openTokens < 1000 then
           (case getQueueTokens e n of
              Thrown x \<Rightarrow> RefillReturn (failedWith x) [GetQueueTokens n]
            | Returned None \<Rightarrow> RefillReturn (statusOnly failed) [GetQueueTokens n]
            | Returned (Some newTokens) \<Rightarrow>
                (case decryptLists e vpd newTokens (openTokens, [], pool) of
                   Thrown x \<Rightarrow> RefillReturn (failedWith x) [GetQueueTokens n]
                 | Returned (heap, pool') \<Rightarrow> RefillDone heap pool' [GetQueueTokens n]))
         else RefillDone openTokens pool [])"

text \<open>The pool as it is written to the local store: the objects behind the references.\<close>

definition deref :: "qtoken list \<Rightarrow> nat list \<Rightarrow> qtoken list" where
  "deref heap pool = map (\<lambda>r. heap ! r) (filter (\<lambda>r. r < length heap) pool)"

subsection \<open>Lookup indices\<close>

text \<open>
  \<^verbatim>\<open>slotsById[slot.id] = slot\<close> and \<^verbatim>\<open>appointmentsBySlotId[slot.id] = oa\<close>,
  written for every slot of every selected appointment, in order: a later slot with
  the same id replaces an earlier one.
\<close>

definition slotsById :: "appointment list \<Rightarrow> (string \<rightharpoonup> slot)" where
  "slotsById selected =
     fold (\<lambda>oa m. fold (\<lambda>sl m'. m'(slot_id sl \<mapsto> sl)) (ap_slotData oa) m) selected Map.empty"

definition appointmentsBySlotId :: "appointment list \<Rightarrow> (string \<rightharpoonup> appointment)" where
  "appointmentsBySlotId selected =
     fold (\<lambda>oa m. fold (\<lambda>sl m'. m'(slot_id sl \<mapsto> oa)) (ap_slotData oa) m) selected Map.empty"

subsection \<open>Reconciliation of a token's slot ids\<close>

text \<open>
  The callback of \<^verbatim>\<open>token.slotIDs.filter\<close>. The second test is written
  \<^verbatim>\<open>!slot.open && !slot.token.token === token.token\<close>: the negation applies to
  \<^verbatim>\<open>slot.token.token\<close> alone, and its boolean result is compared with the token's
  secret. Reading \<^verbatim>\<open>slot.token.token\<close> throws when \<^verbatim>\<open>slot.token\<close> is absent.
\<close>

definition keepSlotID :: "(string \<rightharpoonup> slot) \<Rightarrow> qtoken \<Rightarrow> string \<Rightarrow> bool completion" where
  "keepSlotID byId token i =
     (case byId i of
        None \<Rightarrow> Returned False
      | Some sl \<Rightarrow>
          if \<not> slot_open sl then
            (case slot_token sl of
               None \<Rightarrow> Thrown TypeError
             | Some owner \<Rightarrow>
                 if strict_eq (js_not (JStr owner)) (JStr (tk_token token))
                 then Returned False else Returned True)
          else Returned True)"

text \<open>\<^verbatim>\<open>Array.prototype.filter\<close> with a callback that can throw.\<close>

fun filterThrowing :: "('a \<Rightarrow> bool completion) \<Rightarrow> 'a list \<Rightarrow> 'a list completion" where
  "filterThrowing p [] = Returned []"
| "filterThrowing p (x # xs) =
     (case p x of
        Thrown t \<Rightarrow> Thrown t
      | Returned b \<Rightarrow>
          (case filterThrowing p xs of
             Thrown t \<Rightarrow> Thrown t
           | Returned ys \<Rightarrow> Returned (if b then x # ys else ys)))"

subsection \<open>Topping up a token's slot ids\<close>

text \<open>
  \<^verbatim>\<open>!token.slotIDs.find(id => id === x)\<close>: \<^verbatim>\<open>find\<close> yields the element found
  or \<^verbatim>\<open>undefined\<close>, and the negation tests truthiness, so an empty id that is
  found counts as not found.
\<close>

definition notFound :: "string list \<Rightarrow> string \<Rightarrow> bool" where
  "notFound ids x =
     (case find (\<lambda>i. i = x) ids of None \<Rightarrow> True | Some v \<Rightarrow> \<not> truthy (JStr v))"

text \<open>
  The innermost loop over the first \<^verbatim>\<open>Math.min(3, openSlots.length)\<close> open slots of
  one appointment. The state is the id list and the counter \<^verbatim>\<open>addedSlots\<close>; the
  third component tells that \<^verbatim>\<open>break addSlots\<close> was taken.
\<close>

fun addFromSlots :: "slot list \<Rightarrow> string list \<Rightarrow> nat \<Rightarrow> string list \<times> nat \<times> bool" where
  "addFromSlots [] ids added = (ids, added, False)"
| "addFromSlots (sl # rest) ids added =
     (let (ids', added') =
            (if notFound ids (slot_id sl) then (ids @ [slot_id sl], added + 1)
             else (ids, added))
      in if length ids' \<ge> 12 then (ids', added', True)
         else addFromSlots rest ids' added')"

text \<open>One pass over the selected appointments.\<close>

fun addPass :: "appointment list \<Rightarrow> string list \<Rightarrow> nat \<Rightarrow> string list \<times> nat \<times> bool" where
  "addPass [] ids added = (ids, added, False)"
| "addPass (oa # rest) ids added =
     (case addFromSlots (take 3 (filter slot_open (ap_slotData oa))) ids added of
        (ids', added', brk) \<Rightarrow>
          if brk then (ids', added', True) else addPass rest ids' added')"

lemma addFromSlots_length:
  "addFromSlots sls ids a = (ids', a', brk) \<Longrightarrow> a \<le> a' \<and> length ids' = length ids + (a' - a)"
proof (induction sls arbitrary: ids a)
  case Nil
  then show ?case by simp
next
  case (Cons sl rest)
  show ?case
  proof (cases "notFound ids (slot_id sl)")
    case True
    show ?thesis
    proof (cases "length ids + 1 \<ge> 12")
      case True
      with \<open>notFound ids (slot_id sl)\<close> Cons.prems show ?thesis by auto
    next
      case False
      with \<open>notFound ids (slot_id sl)\<close> Cons.prems
      have "addFromSlots rest (ids @ [slot_id sl]) (a + 1) = (ids', a', brk)" by simp
      from Cons.IH[OF this] show ?thesis by auto
    qed
  next
    case False
    show ?thesis
    proof (cases "length ids \<ge> 12")
      case True
      with \<open>\<not> notFound ids (slot_id sl)\<close> Cons.prems show ?thesis by auto
    next
      case False
      with \<open>\<not> notFound ids (slot_id sl)\<close> Cons.prems
      have "addFromSlots rest ids a = (ids', a', brk)" by simp
      from Cons.IH[OF this] show ?thesis by simp
    qed
  qed
qed

lemma addPass_length:
  "addPass aps ids a = (ids', a', brk) \<Longrightarrow> a \<le> a' \<and> length ids' = length ids + (a' - a)"
proof (induction aps arbitrary: ids a)
  case Nil
  then show ?case by simp
next
  case (Cons oa rest)
  obtain ids1 a1 b1 where
    step: "addFromSlots (take 3 (filter slot_open (ap_slotData oa))) ids a = (ids1, a1, b1)"
    by (cases "addFromSlots (take 3 (filter slot_open (ap_slotData oa))) ids a") auto
  note l1 = addFromSlots_length[OF step]
  show ?case
  proof (cases b1)
    case True
    with step Cons.prems l1 show ?thesis by simp
  next
    case False
    with step Cons.prems have "addPass rest ids1 a1 = (ids', a', brk)" by simp
    from Cons.IH[OF this] l1 show ?thesis by simp
  qed
qed

text \<open>
  The loop \<^verbatim>\<open>addSlots: while (token.slotIDs.length < 12)\<close>: it ends when the
  labelled break is taken or a pass has added nothing.
\<close>

function addSlots :: "appointment list \<Rightarrow> string list \<Rightarrow> string list" where
  "addSlots selected ids =
     (if length ids < 12 then
        (case addPass selected ids 0 of
           (ids', addedSlots, brk) \<Rightarrow>
             if brk then ids'
             else if addedSlots = 0 then ids'
             else addSlots selected ids')
      else ids)"
  by pat_completeness auto
termination
  apply (relation "measure (\<lambda>(selected, ids). 12 - length ids)")
   apply simp
  apply (auto dest!: addPass_length[OF sym])
  done

declare addSlots.simps [simp del]

subsection \<open>Grants, offers and one token's envelope\<close>

definition mkGrant :: "keyPairs \<Rightarrow> qtoken \<Rightarrow> tokenData \<Rightarrow> slot \<Rightarrow> grant" where
  "mkGrant kp token d sl =
     \<lparr>gr_objectID = slot_id sl,
      gr_grantID = tk_grantID token,
      gr_singleUse = True,
      gr_expiresAt = tk_expiresAt token,
      gr_permissions =
        [([''read'', ''write'', ''delete''], [signing_publicKey kp]),
         ([''write'', ''read'', ''delete''], [td_publicKey d])]\<rparr>"

text \<open>
  \<^verbatim>\<open>appointments[oa.id]\<close> is created on first use and then extended; the entries
  keep their order of insertion.
\<close>

fun pushOffer :: "appointment \<Rightarrow> slot \<Rightarrow> grant \<Rightarrow> (string \<times> offer) list \<Rightarrow> (string \<times> offer) list" where
  "pushOffer oa sl g [] =
     [(ap_id oa, \<lparr>of_appointment = oa, of_slotData = [sl], of_grants = [g]\<rparr>)]"
| "pushOffer oa sl g ((k, x) # rest) =
     (if k = ap_id oa
      then (k, x\<lparr>of_slotData := of_slotData x @ [sl], of_grants := of_grants x @ [g]\<rparr>) # rest
      else (k, x) # pushOffer oa sl g rest)"

fun groupOffers :: "(string \<rightharpoonup> appointment) \<Rightarrow> (slot \<times> grant) list \<Rightarrow> (string \<times> offer) list
    \<Rightarrow> (string \<times> offer) list completion" where
  "groupOffers bySlot [] acc = Returned acc"
| "groupOffers bySlot ((sl, g) # rest) acc =
     (case bySlot (slot_id sl) of
        None \<Rightarrow> Thrown TypeError
      | Some oa \<Rightarrow> groupOffers bySlot rest (pushOffer oa sl g acc))"

text \<open>
  The body of the loop over the pool for the token object at reference \<open>r\<close>, in
  its four stages. First the defaults for \<^verbatim>\<open>grantID\<close> and \<^verbatim>\<open>slotIDs\<close>.
\<close>

definition initToken :: "env \<Rightarrow> nat \<Rightarrow> qtoken \<Rightarrow> qtoken" where
  "initToken e r token0 =
     (let token1 = (if tk_grantID token0 = None
                    then token0\<lparr>tk_grantID := Some (randomBytes e r)\<rparr> else token0)
      in token1\<lparr>tk_slotIDs := Some (case tk_slotIDs token1 of None \<Rightarrow> [] | Some ids \<Rightarrow> ids)\<rparr>)"

definition slotIDsOf :: "qtoken \<Rightarrow> string list" where
  "slotIDsOf token = (case tk_slotIDs token of None \<Rightarrow> [] | Some ids \<Rightarrow> ids)"

text \<open>Then the filter over \<^verbatim>\<open>token.slotIDs\<close>, which can throw.\<close>

definition reconcile :: "appointment list \<Rightarrow> qtoken \<Rightarrow> string list completion" where
  "reconcile selected token =
     filterThrowing (keepSlotID (slotsById selected) token) (slotIDsOf token)"

text \<open>Then the top-up of the kept ids and the new expiry date.\<close>

definition topUp :: "env \<Rightarrow> appointment list \<Rightarrow> qtoken \<Rightarrow> string list \<Rightarrow> qtoken" where
  "topUp e selected token kept =
     token\<lparr>tk_slotIDs := Some (addSlots selected kept),
           tk_expiresAt := Some (now e + hour * 24)\<rparr>"

text \<open>
  Last the grants, the offers and the envelope. Every grant is handed to
  \<^verbatim>\<open>sign\<close> before \<^verbatim>\<open>Promise.all\<close> fails on a rejected one; without
  \<^verbatim>\<open>token.data\<close> the read of \<^verbatim>\<open>token.data.publicKey\<close> throws first. The result is
  the envelope to submit, if one was built, and the grants handed to \<^verbatim>\<open>sign\<close>.
\<close>

definition grantsFor :: "keyPairs \<Rightarrow> appointment list \<Rightarrow> qtoken \<Rightarrow> tokenData \<Rightarrow> grant list" where
  "grantsFor kp selected token d =
     map (mkGrant kp token d) (List.map_filter (slotsById selected) (slotIDsOf token))"

definition envelope :: "env \<Rightarrow> keyPairs \<Rightarrow> appointment list \<Rightarrow> qtoken
    \<Rightarrow> submitData option \<times> call list" where
  "envelope e kp selected token =
     (case tk_data token of
        None \<Rightarrow> (None, [])
      | Some d \<Rightarrow>
          (let slots = List.map_filter (slotsById selected) (slotIDsOf token);
               grantsData = grantsFor kp selected token d;
               calls = map SignGrant grantsData
           in if \<not> list_all (sign_ok e) grantsData then (None, calls)
              else
                (case groupOffers (appointmentsBySlotId selected) (zip slots grantsData) [] of
                   Thrown x \<Rightarrow> (None, calls)
                 | Returned appointments \<Rightarrow>
                     (let offers = map snd appointments
                      in if ecdhEncrypt_ok e token offers \<and> signEnvelope_ok e token offers
                         then (Some \<lparr>sd_id = td_id d, sd_offers = offers,
                                     sd_permissions =
                                       [([''read''], [td_publicKey d]),
                                        ([''read'', ''write'', ''delete''],
                                         [signing_publicKey kp])]\<rparr>,
                               calls)
                         else (None, calls)))))"

text \<open>
  The whole body, with its \<^verbatim>\<open>catch\<close>: the token object as it is left (also when
  the body throws and the loop goes on), the envelope, and the signing calls.
\<close>

definition processToken :: "env \<Rightarrow> keyPairs \<Rightarrow> appointment list \<Rightarrow> nat \<Rightarrow> qtoken
    \<Rightarrow> qtoken \<times> submitData option \<times> call list" where
  "processToken e kp selected r token0 =
     (let token2 = initToken e r token0
      in case reconcile selected token2 of
           Thrown x \<Rightarrow> (token2, None, [])
         | Returned kept \<Rightarrow>
             (let token3 = topUp e selected token2 kept
              in case envelope e kp selected token3 of
                   (submit, calls) \<Rightarrow> (token3, submit, calls)))"

text \<open>The loop over \<^verbatim>\<open>openTokens.entries()\<close>.\<close>

fun tokenLoop :: "env \<Rightarrow> keyPairs \<Rightarrow> appointment list \<Rightarrow> nat list
    \<Rightarrow> qtoken list \<times> submitData list \<times> call list \<Rightarrow> qtoken list \<times> submitData list \<times> call list" where
  "tokenLoop e kp selected [] acc = acc"
| "tokenLoop e kp selected (r # rest) (heap, dataToSubmit, calls) =
     (if r < length heap then
        (case processToken e kp selected r (heap ! r) of
           (token', submit, calls') \<Rightarrow>
             tokenLoop e kp selected rest
               (heap[r := token'],
                dataToSubmit @ (case submit of None \<Rightarrow> [] | Some d \<Rightarrow> [d]),
                calls @ calls'))
      else tokenLoop e kp selected rest (heap, dataToSubmit, calls))"

subsection \<open>The scheduling cycle\<close>

text \<open>
  What one call of \<^verbatim>\<open>sendInvitations\<close> leaves behind: how it completes, the token
  pool in the local store afterwards, and the remote and signing calls it made.
\<close>

record sendResult =
  sr_completion :: "unit outcome option completion"
  sr_tokens :: "qtoken list"
  sr_calls :: "call list"

definition futureAppointments :: "env \<Rightarrow> store \<Rightarrow> appointment list" where
  "futureAppointments e st =
     filter (\<lambda>oa. case ap_timestamp oa of None \<Rightarrow> False | Some t \<Rightarrow> t > now e + hour)
       (appointments_open st)"

definition liveTokens :: "env \<Rightarrow> store \<Rightarrow> qtoken list" where
  "liveTokens e st = filter (isLive (now e)) (tokens_open st)"

definition selectedAppointments :: "env \<Rightarrow> store \<Rightarrow> appointment list" where
  "selectedAppointments e st =
     filter (\<lambda>oa. length (filter (\<lambda>sl. slot_open sl \<or> True) (ap_slotData oa)) > 0)
       (futureAppointments e st)"

definition sendInvitations :: "env \<Rightarrow> store \<Rightarrow> keyPairs \<Rightarrow> verifiedProviderData \<Rightarrow> sendResult" where
  "sendInvitations e st kp vpd =
     (if \<not> lock_ok e then
        \<lparr>sr_completion = Thrown ThrownNull, sr_tokens = tokens_open st, sr_calls = []\<rparr>
      else if length (appointments_open st) = 0 then
        \<lparr>sr_completion = Returned (Some (statusOnly succeeded)),
         sr_tokens = tokens_open st, sr_calls = []\<rparr>
      else
        (let openAppointments = futureAppointments e st;
             expiredTokens = filter (isExpired (now e)) (tokens_open st);
             calls0 = (if length expiredTokens > 0
                       then [ReturnTokens (map tk_token expiredTokens)] else [])
         in if length expiredTokens > 0 \<and> returnTokens_err e \<noteq> None then
              \<lparr>sr_completion = Returned None, sr_tokens = tokens_open st, sr_calls = calls0\<rparr>
            else
              (let openTokens = liveTokens e st;
                   openSlots = countOpenSlots openAppointments
               in case refill e vpd openSlots openTokens of
                    RefillReturn oc calls1 \<Rightarrow>
                      \<lparr>sr_completion = Returned (Some oc), sr_tokens = tokens_open st,
                       sr_calls = calls0 @ calls1\<rparr>
                  | RefillDone heap pool calls1 \<Rightarrow>
                      (case tokenLoop e kp (selectedAppointments e st) pool (heap, [], []) of
                         (heap', dataToSubmit, calls2) \<Rightarrow>
                           \<lparr>sr_completion =
                              (case bulkStoreData_err e of
                                 None \<Rightarrow> Returned (Some (statusOnly succeeded))
                               | Some x \<Rightarrow> Returned (Some (failedWith x))),
                            sr_tokens = deref heap' pool,
                            sr_calls = calls0 @ calls1 @ calls2 @ [BulkStoreData dataToSubmit]\<rparr>))))"

section \<open>User side: \<^verbatim>\<open>confirmOffers\<close>\<close>

text \<open>
  A slot as the user sees it in an offer, an offer, and the status cache kept under
  \<^verbatim>\<open>user::invitation::slots\<close>.
\<close>

record offeredSlot =
  os_id :: string
  os_failed :: bool
  os_open :: bool

record userOffer =
  uo_publicKey :: string
  uo_slotData :: "offeredSlot list"

datatype slotStatus = StatusOpen | StatusTaken | StatusError

type_synonym slotInfos = "string \<rightharpoonup> slotStatus"

record userStore =
  invitation_slots :: slotInfos
  invitation_accepted :: "(userOffer \<times> offeredSlot) option"

text \<open>
  The collaborators of one confirmation. An attempt is one pass through the body of
  the slot loop that reaches the encryption of the proof; the encryption and the
  booking call are indexed by the number of earlier attempts, so that the remote
  service may answer differently each time.
\<close>

record userEnv =
  u_lock_ok :: bool
  u_ecdhEncrypt_err :: "thrown option"
  u_ephemeralECDHEncrypt_err :: "nat \<Rightarrow> userOffer \<Rightarrow> thrown option"
  u_bookSlot_err :: "nat \<Rightarrow> string \<Rightarrow> thrown option"

text \<open>
  The handler of the inner \<^verbatim>\<open>catch\<close>. Only an object named
  \<^verbatim>\<open>RPCException\<close> touches the cache. A thrown \<^verbatim>\<open>null\<close> passes
  \<^verbatim>\<open>typeof e === 'object'\<close>, and reading \<^verbatim>\<open>e.name\<close> then throws out of the
  handler.
\<close>

definition catchBookSlot :: "thrown \<Rightarrow> string \<Rightarrow> slotInfos \<Rightarrow> slotInfos completion" where
  "catchBookSlot x i slotInfos =
     (case x of
        ThrownNull \<Rightarrow> Thrown TypeError
      | RPCException code \<Rightarrow>
          Returned (if code = 401 then slotInfos(i \<mapsto> StatusTaken)
                    else slotInfos(i \<mapsto> StatusError))
      | _ \<Rightarrow> Returned slotInfos)"

text \<open>
  How the loop over the slots of one offer ends: a slot was booked, the slots ran out,
  or an exception reached the \<^verbatim>\<open>catch\<close> around the loop. The state is the number
  of attempts so far, the cache, and the booking calls made with their results.
\<close>

datatype slotLoopEnd = Booked offeredSlot | SlotsDone | OfferThrew

type_synonym confirmState = "nat \<times> slotInfos \<times> (string \<times> thrown option) list"

fun slotLoop :: "userEnv \<Rightarrow> userOffer \<Rightarrow> offeredSlot list \<Rightarrow> confirmState
    \<Rightarrow> slotLoopEnd \<times> confirmState" where
  "slotLoop e offer [] st = (SlotsDone, st)"
| "slotLoop e offer (slotData # rest) (k, slotInfos, attempts) =
     (if os_failed slotData \<or> \<not> os_open slotData then
        slotLoop e offer rest (k, slotInfos, attempts)
      else if slotInfos (os_id slotData) = Some StatusTaken then
        slotLoop e offer rest (k, slotInfos, attempts)
      else
        (case u_ephemeralECDHEncrypt_err e k offer of
           Some x \<Rightarrow> (OfferThrew, (k + 1, slotInfos, attempts))
         | None \<Rightarrow>
             (case u_bookSlot_err e k (os_id slotData) of
                None \<Rightarrow>
                  (Booked slotData, (k + 1, slotInfos, attempts @ [(os_id slotData, None)]))
              | Some x \<Rightarrow>
                  (case catchBookSlot x (os_id slotData) slotInfos of
                     Thrown y \<Rightarrow>
                       (OfferThrew, (k + 1, slotInfos, attempts @ [(os_id slotData, Some x)]))
                   | Returned slotInfos' \<Rightarrow>
                       slotLoop e offer rest
                         (k + 1, slotInfos', attempts @ [(os_id slotData, Some x)])))))"

fun offerLoop :: "userEnv \<Rightarrow> userOffer list \<Rightarrow> confirmState
    \<Rightarrow> (userOffer \<times> offeredSlot) option \<times> confirmState" where
  "offerLoop e [] st = (None, st)"
| "offerLoop e (offer # rest) st =
     (case slotLoop e offer (uo_slotData offer) st of
        (Booked slotData, st') \<Rightarrow> (Some (offer, slotData), st')
      | (SlotsDone, st') \<Rightarrow> offerLoop e rest st'
      | (OfferThrew, st') \<Rightarrow> offerLoop e rest st')"

text \<open>
  What one call leaves behind: how it completes, the local store afterwards (the
  \<^verbatim>\<open>finally\<close> block writes the cache on every path once the lock is held), and
  the booking calls.
\<close>

record confirmResult =
  cr_completion :: "(userOffer \<times> offeredSlot) outcome completion"
  cr_store :: userStore
  cr_attempts :: "(string \<times> thrown option) list"

definition confirmOffers :: "userEnv \<Rightarrow> userStore \<Rightarrow> userOffer list \<Rightarrow> confirmResult" where
  "confirmOffers e st offers =
     (if \<not> u_lock_ok e then
        \<lparr>cr_completion = Thrown ThrownNull, cr_store = st, cr_attempts = []\<rparr>
      else
        (case u_ecdhEncrypt_err e of
           Some x \<Rightarrow>
             \<lparr>cr_completion = Thrown x,
              cr_store = st, cr_attempts = []\<rparr>
         | None \<Rightarrow>
             (case offerLoop e offers (0, invitation_slots st, []) of
                (Some (offer, slotData), (k, slotInfos, attempts)) \<Rightarrow>
                  \<lparr>cr_completion = Returned (withData succeeded (offer, slotData)),
                   cr_store = \<lparr>invitation_slots = slotInfos,
                               invitation_accepted = Some (offer, slotData)\<rparr>,
                   cr_attempts = attempts\<rparr>
              | (None, (k, slotInfos, attempts)) \<Rightarrow>
                  \<lparr>cr_completion = Returned (statusOnly failed),
                   cr_store = st\<lparr>invitation_slots := slotInfos\<rparr>,
                   cr_attempts = attempts\<rparr>)))"

text \<open>A slot that the loop will try: not failed, open, and not cached as taken.\<close>

definition eligible :: "slotInfos \<Rightarrow> offeredSlot \<Rightarrow> bool" where
  "eligible slotInfos sd =
     (\<not> os_failed sd \<and> os_open sd \<and> slotInfos (os_id sd) \<noteq> Some StatusTaken)"

text \<open>
  The rest of the iteration from inside the slot loop of \<open>offer\<close>: its remaining
  slots, then the remaining offers.
\<close>

definition confirmFrom :: "userEnv \<Rightarrow> userOffer \<Rightarrow> offeredSlot list \<Rightarrow> userOffer list
    \<Rightarrow> confirmState \<Rightarrow> (userOffer \<times> offeredSlot) option \<times> confirmState" where
  "confirmFrom e offer slots offers st =
     (case slotLoop e offer slots st of
        (Booked slotData, st') \<Rightarrow> (Some (offer, slotData), st')
      | (SlotsDone, st') \<Rightarrow> offerLoop e offers st'
      | (OfferThrew, st') \<Rightarrow> offerLoop e offers st')"

lemma offerLoop_confirmFrom:
  "offerLoop e (offer # offers) st = confirmFrom e offer (uo_slotData offer) offers st"
  by (simp add: confirmFrom_def)

section \<open>Provider side: \<^verbatim>\<open>keyPairs\<close> and \<^verbatim>\<open>createAppointment\<close>\<close>

record keyPairSet =
  kps_sync :: "string option"
  kps_signing :: string
  kps_encryption :: string

text \<open>
  The collaborators of \<^verbatim>\<open>keyPairs\<close>: the lock, the read of
  \<^verbatim>\<open>provider::keyPairs\<close>, \<^verbatim>\<open>markAsLoading\<close>, the write of the new key pairs
  and the unlock, each given by the error it throws, if any, and the three key
  generators. The argument \<open>stored\<close> of the functions is what the read yields when it
  does not throw.
\<close>

record keyEnv =
  k_lock_err :: "thrown option"
  k_get_err :: "thrown option"
  k_markAsLoading_err :: "thrown option"
  k_generateSymmetricKey :: "string completion"
  k_generateECDSAKeyPair :: "string completion"
  k_generateECDHKeyPair :: "string completion"
  k_set_err :: "thrown option"
  k_unlock_err :: "thrown option"

record keyResult =
  kr_completion :: "keyPairSet outcome completion"
  kr_stored :: "keyPairSet option"

text \<open>
  A \<^verbatim>\<open>finally\<close> block that unlocks: when the unlock throws, its error replaces
  the completion of the \<^verbatim>\<open>try\<close> block.
\<close>

definition finallyUnlock :: "thrown option \<Rightarrow> 'a completion \<Rightarrow> 'a completion" where
  "finallyUnlock unlockErr c = (case unlockErr of Some x \<Rightarrow> Thrown x | None \<Rightarrow> c)"

text \<open>
  The handler \<^verbatim>\<open>catch (e) { return {status: 'failed', error: e.toString()} }\<close> of
  \<^verbatim>\<open>provider/actions/key-pairs.js\<close>: on a thrown \<^verbatim>\<open>null\<close> the call
  \<^verbatim>\<open>e.toString()\<close> throws a \<^verbatim>\<open>TypeError\<close> out of the handler. The error detail
  of the outcome stands for the string of the error.
\<close>

definition failedToString :: "thrown \<Rightarrow> 'd outcome completion" where
  "failedToString x =
     (case x of ThrownNull \<Rightarrow> Thrown TypeError | _ \<Rightarrow> Returned (failedWith x))"

text \<open>
  The body of the inner \<^verbatim>\<open>try\<close> of \<^verbatim>\<open>provider/actions/key-pairs.js\<close>: the
  two generators, then the write to the local store.
\<close>

definition generateKeyPairs :: "keyEnv \<Rightarrow> keyPairSet completion" where
  "generateKeyPairs e =
     (case k_generateECDSAKeyPair e of
        Thrown x \<Rightarrow> Thrown x
      | Returned signingKeyPair \<Rightarrow>
          (case k_generateECDHKeyPair e of
             Thrown x \<Rightarrow> Thrown x
           | Returned encryptionKeyPair \<Rightarrow>
               (case k_set_err e of
                  Some x \<Rightarrow> Thrown x
                | None \<Rightarrow>
                    Returned \<lparr>kps_sync = None, kps_signing = signingKeyPair,
                              kps_encryption = encryptionKeyPair\<rparr>)))"

text \<open>
  \<^verbatim>\<open>provider/actions/key-pairs.js\<close>: the lock is taken inside the
  \<^verbatim>\<open>try ... finally\<close>, which has no \<^verbatim>\<open>catch\<close>, so that an error of the lock,
  of the read or of \<^verbatim>\<open>markAsLoading\<close> escapes, after the unlock.
\<close>

definition keyPairs :: "keyEnv \<Rightarrow> keyPairSet option \<Rightarrow> keyResult" where
  "keyPairs e stored =
     (case k_lock_err e of
        Some x \<Rightarrow>
          \<lparr>kr_completion = finallyUnlock (k_unlock_err e) (Thrown x), kr_stored = stored\<rparr>
      | None \<Rightarrow>
          (case k_get_err e of
             Some x \<Rightarrow>
               \<lparr>kr_completion = finallyUnlock (k_unlock_err e) (Thrown x), kr_stored = stored\<rparr>
           | None \<Rightarrow>
               (case k_markAsLoading_err e of
                  Some x \<Rightarrow>
                    \<lparr>kr_completion = finallyUnlock (k_unlock_err e) (Thrown x),
                     kr_stored = stored\<rparr>
                | None \<Rightarrow>
                    (case stored of
                       Some providerKeyPairs \<Rightarrow>
                         \<lparr>kr_completion = finallyUnlock (k_unlock_err e)
                            (Returned (withData loaded providerKeyPairs)),
                          kr_stored = stored\<rparr>
                     | None \<Rightarrow>
                         (case generateKeyPairs e of
                            Thrown x \<Rightarrow>
                              \<lparr>kr_completion = finallyUnlock (k_unlock_err e) (failedToString x),
                               kr_stored = None\<rparr>
                          | Returned kps \<Rightarrow>
                              \<lparr>kr_completion = finallyUnlock (k_unlock_err e)
                                 (Returned (withData loaded kps)),
                               kr_stored = Some kps\<rparr>)))))"



text \<open>
  \<^verbatim>\<open>createAppointment\<close>: the lock, the read of the open appointments, the three
  calls of \<^verbatim>\<open>randomBytes\<close> (numbered in the order of the object literal:
  \<^verbatim>\<open>id\<close>, \<^verbatim>\<open>status\<close>, \<^verbatim>\<open>cancel\<close>) and the write are all inside a
  \<^verbatim>\<open>try ... finally\<close> without \<^verbatim>\<open>catch\<close>: whatever one of them throws escapes,
  after the unlock. The caller's fields are spread after the three fresh identifiers,
  so an \<^verbatim>\<open>id\<close> supplied by the caller replaces the generated one. The
  \<^verbatim>\<open>status\<close> and \<^verbatim>\<open>cancel\<close> identifiers are not read by any code modelled here
  and are not kept in the appointment record.
\<close>

record appointmentInput =
  ai_id :: "string option"
  ai_timestamp :: "int option"
  ai_slotData :: "slot list"

record createEnv =
  c_lock_err :: "thrown option"
  c_get_err :: "thrown option"
  c_randomBytes :: "nat \<Rightarrow> string completion"
  c_set_err :: "thrown option"
  c_unlock_err :: "thrown option"

record createResult =
  ca_completion :: "appointment list outcome completion"
  ca_stored :: "appointment list"

text \<open>The three identifiers; the result is the \<^verbatim>\<open>id\<close>.\<close>

definition freshIdentifiers :: "createEnv \<Rightarrow> string completion" where
  "freshIdentifiers e =
     (case c_randomBytes e 0 of
        Thrown x \<Rightarrow> Thrown x
      | Returned i \<Rightarrow>
          (case c_randomBytes e 1 of
             Thrown x \<Rightarrow> Thrown x
           | Returned s \<Rightarrow>
               (case c_randomBytes e 2 of
                  Thrown x \<Rightarrow> Thrown x
                | Returned c \<Rightarrow> Returned i)))"

definition createAppointment :: "createEnv \<Rightarrow> appointment list \<Rightarrow> appointmentInput \<Rightarrow> createResult" where
  "createAppointment e openAppointments appointment =
     (case c_lock_err e of
        Some x \<Rightarrow>
          \<lparr>ca_completion = finallyUnlock (c_unlock_err e) (Thrown x),
           ca_stored = openAppointments\<rparr>
      | None \<Rightarrow>
          (case c_get_err e of
             Some x \<Rightarrow>
               \<lparr>ca_completion = finallyUnlock (c_unlock_err e) (Thrown x),
                ca_stored = openAppointments\<rparr>
           | None \<Rightarrow>
               (case freshIdentifiers e of
                  Thrown x \<Rightarrow>
                    \<lparr>ca_completion = finallyUnlock (c_unlock_err e) (Thrown x),
                     ca_stored = openAppointments\<rparr>
                | Returned i \<Rightarrow>
                    (let openAppointments' = openAppointments @
                           [\<lparr>ap_id = (case ai_id appointment of None \<Rightarrow> i | Some i' \<Rightarrow> i'),
                             ap_timestamp = ai_timestamp appointment,
                             ap_slotData = ai_slotData appointment\<rparr>]
                     in case c_set_err e of
                          Some x \<Rightarrow>
                            \<lparr>ca_completion = finallyUnlock (c_unlock_err e) (Thrown x),
                             ca_stored = openAppointments\<rparr>
                        | None \<Rightarrow>
                            \<lparr>ca_completion = finallyUnlock (c_unlock_err e)
                               (Returned (withData loaded openAppointments')),
                             ca_stored = openAppointments'\<rparr>))))"

section \<open>Concrete collaborators and stores\<close>

text \<open>
  A well-behaved environment at time 0 (every collaborator succeeds, the allocator
  has no tokens to give), and small stores, used to evaluate the definitions.
\<close>

definition demoEnv :: env where
  "demoEnv =
     \<lparr>lock_ok = True, now = 0, returnTokens_err = None,
      getQueueTokens = (\<lambda>n. Returned (Some [])),
      jsonParseKey = Some,
      ecdhDecrypt = (\<lambda>t k. Some \<lparr>td_id = tk_token t, td_publicKey = tk_encryptedData t\<rparr>),
      generateECDHKeyPair_err = (\<lambda>r. None),
      randomBytes = (\<lambda>r. ''grant''),
      sign_ok = (\<lambda>g. True),
      ecdhEncrypt_ok = (\<lambda>t os. True),
      signEnvelope_ok = (\<lambda>t os. True),
      bulkStoreData_err = None\<rparr>"

definition demoKeys :: keyPairs where
  "demoKeys = \<lparr>signing_publicKey = ''provider''\<rparr>"

definition demoVpd :: verifiedProviderData where
  "demoVpd = \<lparr>queuePrivateKeys = [(''q'', ''k'')]\<rparr>"

definition openSlot :: "string \<Rightarrow> slot" where
  "openSlot i = \<lparr>slot_id = i, slot_open = True, slot_token = None\<rparr>"

definition closedSlot :: "string \<Rightarrow> string \<Rightarrow> slot" where
  "closedSlot i owner = \<lparr>slot_id = i, slot_open = False, slot_token = Some owner\<rparr>"

definition liveToken :: "string \<Rightarrow> string list \<Rightarrow> qtoken" where
  "liveToken secret ids =
     \<lparr>tk_token = secret, tk_queue = ''q'', tk_encryptedData = ''pk'',
      tk_data = Some \<lparr>td_id = secret, td_publicKey = ''pk''\<rparr>,
      tk_grantID = Some ''grant'', tk_slotIDs = Some ids, tk_expiresAt = Some (hour * 24)\<rparr>"

text \<open>One appointment two hours ahead with ten open slots, and no tokens.\<close>

definition tenSlotStore :: store where
  "tenSlotStore =
     \<lparr>appointments_open =
        [\<lparr>ap_id = ''a1'', ap_timestamp = Some (hour * 2),
          ap_slotData = map openSlot
            [''s0'', ''s1'', ''s2'', ''s3'', ''s4'', ''s5'', ''s6'', ''s7'', ''s8'', ''s9'']\<rparr>],
      tokens_open = []\<rparr>"

definition expiredToken :: "string \<Rightarrow> qtoken" where
  "expiredToken secret = (liveToken secret [])\<lparr>tk_expiresAt := Some (- 1)\<rparr>"

text \<open>No appointments, and one token that has expired.\<close>

definition expiredOnlyStore :: store where
  "expiredOnlyStore = \<lparr>appointments_open = [], tokens_open = [expiredToken ''A'']\<rparr>"

text \<open>
  One appointment whose only slot is closed and owned by token \<open>B\<close>, and a live
  token \<open>A\<close> that holds the slot's id.
\<close>

definition takenSlotStore :: store where
  "takenSlotStore =
     \<lparr>appointments_open =
        [\<lparr>ap_id = ''a1'', ap_timestamp = Some (hour * 2), ap_slotData = [closedSlot ''s1'' ''B'']\<rparr>],
      tokens_open = [liveToken ''A'' [''s1'']]\<rparr>"

text \<open>One appointment with twelve open slots, and a live token without slot ids.\<close>

definition twelveSlotStore :: store where
  "twelveSlotStore =
     \<lparr>appointments_open =
        [\<lparr>ap_id = ''a1'', ap_timestamp = Some (hour * 2),
          ap_slotData = map openSlot
            [''s00'', ''s01'', ''s02'', ''s03'', ''s04'', ''s05'', ''s06'', ''s07'', ''s08'',
             ''s09'', ''s10'', ''s11'']\<rparr>],
      tokens_open = [liveToken ''A'' []]\<rparr>"

text \<open>
  One appointment with thirteen open slots, and a live token that already holds all
  thirteen ids.
\<close>

definition thirteenSlotStore :: store where
  "thirteenSlotStore =
     \<lparr>appointments_open =
        [\<lparr>ap_id = ''a1'', ap_timestamp = Some (hour * 2),
          ap_slotData = map openSlot
            [''s00'', ''s01'', ''s02'', ''s03'', ''s04'', ''s05'', ''s06'', ''s07'', ''s08'',
             ''s09'', ''s10'', ''s11'', ''s12'']\<rparr>],
      tokens_open =
        [liveToken ''A''
           [''s00'', ''s01'', ''s02'', ''s03'', ''s04'', ''s05'', ''s06'', ''s07'', ''s08'',
            ''s09'', ''s10'', ''s11'', ''s12'']]\<rparr>"

text \<open>
  An allocator that hands out exactly as many tokens as it is asked for, in one list,
  and one appointment with 201 open slots and no tokens.
\<close>

definition rawToken :: qtoken where
  "rawToken =
     \<lparr>tk_token = ''t'', tk_queue = ''q'', tk_encryptedData = ''pk'', tk_data = None,
      tk_grantID = None, tk_slotIDs = None, tk_expiresAt = None\<rparr>"

definition generousEnv :: env where
  "generousEnv = demoEnv\<lparr>getQueueTokens := (\<lambda>n. Returned (Some [replicate n rawToken]))\<rparr>"

definition crowdedStore :: store where
  "crowdedStore =
     \<lparr>appointments_open =
        [\<lparr>ap_id = ''a1'', ap_timestamp = Some (hour * 2),
          ap_slotData = map (\<lambda>n. openSlot (replicate (Suc n) CHR ''s'')) [0 ..< 201]\<rparr>],
      tokens_open = []\<rparr>"

subsection \<open>Offers and user environments\<close>

definition slotOne :: offeredSlot where
  "slotOne = \<lparr>os_id = ''slot1'', os_failed = False, os_open = True\<rparr>"

definition slotTwo :: offeredSlot where
  "slotTwo = \<lparr>os_id = ''slot2'', os_failed = False, os_open = True\<rparr>"

definition offerOne :: userOffer where
  "offerOne = \<lparr>uo_publicKey = ''pk1'', uo_slotData = [slotOne]\<rparr>"

definition offerTwo :: userOffer where
  "offerTwo = \<lparr>uo_publicKey = ''pk2'', uo_slotData = [slotTwo]\<rparr>"

definition twoSlotOffer :: userOffer where
  "twoSlotOffer = \<lparr>uo_publicKey = ''pk'', uo_slotData = [slotOne, slotTwo]\<rparr>"

definition emptyUserStore :: userStore where
  "emptyUserStore = \<lparr>invitation_slots = Map.empty, invitation_accepted = None\<rparr>"

text \<open>
  A user environment in which booking \<open>slot1\<close> always throws \<open>x\<close> and every other
  call succeeds, and one in which the first encryption of a proof fails.
\<close>

definition slotOneThrows :: "thrown \<Rightarrow> userEnv" where
  "slotOneThrows x =
     \<lparr>u_lock_ok = True, u_ecdhEncrypt_err = None,
      u_ephemeralECDHEncrypt_err = (\<lambda>k offer. None),
      u_bookSlot_err = (\<lambda>k i. if i = ''slot1'' then Some x else None)\<rparr>"

definition firstEncryptionFails :: userEnv where
  "firstEncryptionFails =
     \<lparr>u_lock_ok = True, u_ecdhEncrypt_err = None,
      u_ephemeralECDHEncrypt_err = (\<lambda>k offer. if k = 0 then Some OtherError else None),
      u_bookSlot_err = (\<lambda>k i. None)\<rparr>"

subsection \<open>Locks that fail\<close>


text \<open>
  Environments of \<^verbatim>\<open>keyPairs\<close> and \<^verbatim>\<open>createAppointment\<close> in which everything
  but the lock succeeds, and one in which the first key generator rejects with
  \<^verbatim>\<open>null\<close>.
\<close>

definition keyEnvWith :: "thrown option \<Rightarrow> keyEnv" where
  "keyEnvWith lockErr =
     \<lparr>k_lock_err = lockErr, k_get_err = None, k_markAsLoading_err = None,
      k_generateSymmetricKey = Returned ''sync'',
      k_generateECDSAKeyPair = Returned ''ecdsa'', k_generateECDHKeyPair = Returned ''ecdh'',
      k_set_err = None, k_unlock_err = None\<rparr>"

definition nullRejectionEnv :: keyEnv where
  "nullRejectionEnv = (keyEnvWith None)\<lparr>k_generateECDSAKeyPair := Thrown ThrownNull\<rparr>"

definition createEnvWith :: "thrown option \<Rightarrow> createEnv" where
  "createEnvWith lockErr =
     \<lparr>c_lock_err = lockErr, c_get_err = None, c_randomBytes = (\<lambda>n. Returned ''id''),
      c_set_err = None, c_unlock_err = None\<rparr>"

definition newAppointment :: appointmentInput where
  "newAppointment = \<lparr>ai_id = None, ai_timestamp = Some (hour * 2), ai_slotData = [openSlot ''s0'']\<rparr>"

section \<open>Calls made by a cycle\<close>

fun isGetQueueTokens :: "call \<Rightarrow> bool" where
  "isGetQueueTokens (GetQueueTokens n) = True"
| "isGetQueueTokens _ = False"

fun isSignGrant :: "call \<Rightarrow> bool" where
  "isSignGrant (SignGrant g) = True"
| "isSignGrant _ = False"

lemma envelope_calls:
  "envelope e kp selected token = (submit, calls) \<Longrightarrow> list_all isSignGrant calls"
  unfolding envelope_def Let_def
  by (auto split: completion.splits option.splits if_splits simp: list_all_iff)

lemma processToken_calls:
  "processToken e kp selected r token = (token', submit, calls) \<Longrightarrow> list_all isSignGrant calls"
  unfolding processToken_def Let_def
  by (auto split: completion.splits prod.splits dest: envelope_calls)

lemma tokenLoop_calls:
  "tokenLoop e kp selected pool (heap, ds, cs) = (heap', ds', cs') \<Longrightarrow>
   list_all isSignGrant cs \<Longrightarrow> list_all isSignGrant cs'"
proof (induction pool arbitrary: heap ds cs)
  case Nil
  then show ?case by simp
next
  case (Cons r rest)
  show ?case
  proof (cases "r < length heap")
    case True
    obtain t' sub c' where p: "processToken e kp selected r (heap ! r) = (t', sub, c')"
      by (cases "processToken e kp selected r (heap ! r)") auto
    from Cons.prems(1) True p
    have "tokenLoop e kp selected rest (heap[r := t'], ds @ (case sub of None \<Rightarrow> [] | Some d \<Rightarrow> [d]), cs @ c') = (heap', ds', cs')"
      by simp
    from Cons.IH[OF this] processToken_calls[OF p] Cons.prems(2) show ?thesis by simp
  next
    case False
    with Cons show ?thesis by simp
  qed
qed

lemma signGrant_not_request: "list_all isSignGrant cs \<Longrightarrow> filter isGetQueueTokens cs = []"
  by (induction cs) (auto elim: isSignGrant.elims)

lemma refill_calls_request:
  assumes "n = refillCount openSlots (length openTokens)" "n > 0" "length openTokens < 1000"
  shows "(case refill e vpd openSlots openTokens of RefillReturn oc cs \<Rightarrow> cs | RefillDone h p cs \<Rightarrow> cs) = [GetQueueTokens n]"
  using assms unfolding refill_def Let_def
  by (auto split: completion.splits option.splits)

section \<open>Facts about the top-up loop\<close>

text \<open>The loop never lets the list grow beyond twelve ids.\<close>

lemma addFromSlots_bound:
  "addFromSlots sls ids a = (ids', a', brk) \<Longrightarrow> length ids < 12 \<Longrightarrow>
     length ids' \<le> 12 \<and> (\<not> brk \<longrightarrow> length ids' < 12) \<and> (brk \<longrightarrow> length ids' \<ge> 12)"
proof (induction sls arbitrary: ids a)
  case Nil
  then show ?case by simp
next
  case (Cons sl rest)
  show ?case
  proof (cases "notFound ids (slot_id sl)")
    case True
    show ?thesis
    proof (cases "length ids + 1 \<ge> 12")
      case True
      with \<open>notFound ids (slot_id sl)\<close> Cons.prems show ?thesis by auto
    next
      case False
      with \<open>notFound ids (slot_id sl)\<close> Cons.prems
      have "addFromSlots rest (ids @ [slot_id sl]) (a + 1) = (ids', a', brk)" by simp
      from Cons.IH[OF this] False show ?thesis by simp
    qed
  next
    case False
    with Cons.prems have "addFromSlots rest ids a = (ids', a', brk)" by simp
    from Cons.IH[OF this] Cons.prems(2) show ?thesis by simp
  qed
qed

lemma addPass_bound:
  "addPass aps ids a = (ids', a', brk) \<Longrightarrow> length ids < 12 \<Longrightarrow>
     length ids' \<le> 12 \<and> (\<not> brk \<longrightarrow> length ids' < 12) \<and> (brk \<longrightarrow> length ids' \<ge> 12)"
proof (induction aps arbitrary: ids a)
  case Nil
  then show ?case by simp
next
  case (Cons oa rest)
  obtain ids1 a1 b1 where
    step: "addFromSlots (take 3 (filter slot_open (ap_slotData oa))) ids a = (ids1, a1, b1)"
    by (cases "addFromSlots (take 3 (filter slot_open (ap_slotData oa))) ids a") auto
  note b = addFromSlots_bound[OF step Cons.prems(2)]
  show ?case
  proof (cases b1)
    case True
    with step Cons.prems b show ?thesis by simp
  next
    case False
    with step Cons.prems have "addPass rest ids1 a1 = (ids', a', brk)" by simp
    from Cons.IH[OF this] b False show ?thesis by simp
  qed
qed

lemma addSlots_bound: "length ids \<le> 12 \<Longrightarrow> length (addSlots selected ids) \<le> 12"
proof (induction selected ids rule: addSlots.induct)
  case (1 selected ids)
  show ?case
  proof (cases "length ids < 12")
    case False
    with 1 show ?thesis by (simp add: addSlots.simps)
  next
    case True
    obtain ids' a' brk where p: "addPass selected ids 0 = (ids', a', brk)"
      by (cases "addPass selected ids 0") auto
    note b = addPass_bound[OF p True]
    show ?thesis
    proof (cases "brk \<or> a' = 0")
      case True
      with p b \<open>length ids < 12\<close> show ?thesis by (auto simp: addSlots.simps[of selected ids])
    next
      case False
      with "1.IH"[OF \<open>length ids < 12\<close> p[symmetric] refl] b
      have "length (addSlots selected ids') \<le> 12" by simp
      with p False \<open>length ids < 12\<close> show ?thesis by (simp add: addSlots.simps[of selected ids])
    qed
  qed
qed

text \<open>
  All slots of the selected appointments, and the ids of the open ones. A pass only
  appends to the list, and only ids of open slots.
\<close>

definition allSlots :: "appointment list \<Rightarrow> slot list" where
  "allSlots selected = concat (map ap_slotData selected)"

definition openIds :: "appointment list \<Rightarrow> string set" where
  "openIds selected = slot_id ` {sl \<in> set (allSlots selected). slot_open sl}"

lemma addFromSlots_prefix:
  "addFromSlots sls ids a = (ids', a', brk) \<Longrightarrow>
     \<exists>zs. ids' = ids @ zs \<and> set zs \<subseteq> slot_id ` set sls"
proof (induction sls arbitrary: ids a)
  case Nil
  then show ?case by simp
next
  case (Cons sl rest)
  let ?ids1 = "if notFound ids (slot_id sl) then ids @ [slot_id sl] else ids"
  let ?a1 = "if notFound ids (slot_id sl) then a + 1 else a"
  have pre1: "\<exists>zs. ?ids1 = ids @ zs \<and> set zs \<subseteq> slot_id ` set (sl # rest)" by auto
  show ?case
  proof (cases "length ?ids1 \<ge> 12")
    case True
    with Cons.prems have "ids' = ?ids1" by (auto split: if_splits)
    with pre1 show ?thesis by simp
  next
    case False
    with Cons.prems have "addFromSlots rest ?ids1 ?a1 = (ids', a', brk)"
      by (auto split: if_splits)
    from Cons.IH[OF this] obtain zs where zs: "ids' = ?ids1 @ zs" "set zs \<subseteq> slot_id ` set rest"
      by blast
    show ?thesis
    proof (cases "notFound ids (slot_id sl)")
      case True
      with zs have "ids' = ids @ (slot_id sl # zs)" "set (slot_id sl # zs) \<subseteq> slot_id ` set (sl # rest)"
        by auto
      then show ?thesis by blast
    next
      case False
      with zs have "ids' = ids @ zs" "set zs \<subseteq> slot_id ` set (sl # rest)" by auto
      then show ?thesis by blast
    qed
  qed
qed

lemma take_open_subset:
  "oa \<in> set aps \<Longrightarrow> slot_id ` set (take 3 (filter slot_open (ap_slotData oa))) \<subseteq> openIds aps"
proof
  fix i assume oa: "oa \<in> set aps" and "i \<in> slot_id ` set (take 3 (filter slot_open (ap_slotData oa)))"
  then obtain sl where sl: "sl \<in> set (take 3 (filter slot_open (ap_slotData oa)))" "i = slot_id sl"
    by auto
  from sl(1) have "sl \<in> set (filter slot_open (ap_slotData oa))" by (rule in_set_takeD)
  with oa have "sl \<in> set (allSlots aps)" "slot_open sl" by (auto simp: allSlots_def)
  with sl(2) show "i \<in> openIds aps" by (auto simp: openIds_def)
qed

lemma addPass_prefix:
  "addPass aps ids a = (ids', a', brk) \<Longrightarrow>
     \<exists>zs. ids' = ids @ zs \<and> set zs \<subseteq> openIds aps"
proof (induction aps arbitrary: ids a)
  case Nil
  then show ?case by simp
next
  case (Cons oa rest)
  obtain ids1 a1 b1 where
    step: "addFromSlots (take 3 (filter slot_open (ap_slotData oa))) ids a = (ids1, a1, b1)"
    by (cases "addFromSlots (take 3 (filter slot_open (ap_slotData oa))) ids a") auto
  from addFromSlots_prefix[OF step] take_open_subset[of oa "oa # rest"]
  obtain zs1 where z1: "ids1 = ids @ zs1" "set zs1 \<subseteq> openIds (oa # rest)" by auto
  show ?case
  proof (cases b1)
    case True
    with step Cons.prems z1 show ?thesis by auto
  next
    case False
    with step Cons.prems have "addPass rest ids1 a1 = (ids', a', brk)" by simp
    from Cons.IH[OF this] obtain zs2 where z2: "ids' = ids1 @ zs2" "set zs2 \<subseteq> openIds rest"
      by blast
    have "openIds rest \<subseteq> openIds (oa # rest)" by (auto simp: openIds_def allSlots_def)
    with z1 z2 have "ids' = ids @ (zs1 @ zs2)" "set (zs1 @ zs2) \<subseteq> openIds (oa # rest)" by auto
    then show ?thesis by blast
  qed
qed

lemma addSlots_unfold:
  "length ids < 12 \<Longrightarrow> addPass selected ids 0 = (ids', a', brk) \<Longrightarrow>
     addSlots selected ids = (if brk \<or> a' = 0 then ids' else addSlots selected ids')"
  by (simp add: addSlots.simps[of selected ids])

lemma addSlots_full: "\<not> length ids < 12 \<Longrightarrow> addSlots selected ids = ids"
  by (simp add: addSlots.simps[of selected ids])



text \<open>
  The slots a pass looks at: the first three open slots of every selected appointment,
  the same in every pass.
\<close>

definition candidates :: "appointment list \<Rightarrow> slot list" where
  "candidates selected = concat (map (\<lambda>oa. take 3 (filter slot_open (ap_slotData oa))) selected)"

lemma notFound_iff: "notFound ids x \<longleftrightarrow> x \<notin> set ids \<or> x = []"
proof -
  have "find (\<lambda>i. i = x) ids = (if x \<in> set ids then Some x else None)"
    by (induction ids) auto
  then show ?thesis by (simp add: notFound_def)
qed

lemma addFromSlots_covers:
  "addFromSlots sls ids a = (ids', a', False) \<Longrightarrow> slot_id ` set sls \<subseteq> set ids'"
proof (induction sls arbitrary: ids a)
  case Nil
  then show ?case by simp
next
  case (Cons sl rest)
  let ?ids1 = "if notFound ids (slot_id sl) then ids @ [slot_id sl] else ids"
  let ?a1 = "if notFound ids (slot_id sl) then a + 1 else a"
  have in1: "slot_id sl \<in> set ?ids1" by (auto simp: notFound_iff)
  from Cons.prems have step: "addFromSlots rest ?ids1 ?a1 = (ids', a', False)"
    by (auto split: if_splits)
  from addFromSlots_prefix[OF step] in1 have "slot_id sl \<in> set ids'" by auto
  with Cons.IH[OF step] show ?case by simp
qed

lemma addPass_covers:
  "addPass aps ids a = (ids', a', False) \<Longrightarrow> slot_id ` set (candidates aps) \<subseteq> set ids'"
proof (induction aps arbitrary: ids a)
  case Nil
  then show ?case by (simp add: candidates_def)
next
  case (Cons oa rest)
  obtain ids1 a1 b1 where
    step: "addFromSlots (take 3 (filter slot_open (ap_slotData oa))) ids a = (ids1, a1, b1)"
    by (cases "addFromSlots (take 3 (filter slot_open (ap_slotData oa))) ids a") auto
  with Cons.prems have nb: "\<not> b1" and r: "addPass rest ids1 a1 = (ids', a', False)"
    by (auto split: if_splits)
  from addPass_prefix[OF r] have "set ids1 \<subseteq> set ids'" by auto
  with addFromSlots_covers[of _ ids a ids1 a1] step nb
  have "slot_id ` set (take 3 (filter slot_open (ap_slotData oa))) \<subseteq> set ids'" by auto
  with Cons.IH[OF r] show ?case by (auto simp: candidates_def)
qed

lemma addFromSlots_nothing_new:
  "\<forall>sl \<in> set sls. \<not> notFound ids (slot_id sl) \<Longrightarrow> length ids < 12 \<Longrightarrow>
     addFromSlots sls ids a = (ids, a, False)"
  by (induction sls) auto

lemma addPass_nothing_new:
  "\<forall>sl \<in> set (candidates aps). \<not> notFound ids (slot_id sl) \<Longrightarrow> length ids < 12 \<Longrightarrow>
     addPass aps ids a = (ids, a, False)"
  by (induction aps) (auto simp: candidates_def addFromSlots_nothing_new)

text \<open>
  When no candidate slot has an empty id, the loop is one pass: a second pass finds
  every candidate in the list and adds nothing.
\<close>

lemma addSlots_one_pass:
  assumes "\<forall>sl \<in> set (candidates selected). slot_id sl \<noteq> []" and "length ids < 12"
  shows "addSlots selected ids = fst (addPass selected ids 0)"
proof -
  obtain ids' a' brk where p: "addPass selected ids 0 = (ids', a', brk)"
    by (cases "addPass selected ids 0") auto
  note u = addSlots_unfold[OF assms(2) p]
  show ?thesis
  proof (cases "brk \<or> a' = 0")
    case True
    with u p show ?thesis by simp
  next
    case False
    with p have p': "addPass selected ids 0 = (ids', a', False)" by simp
    from addPass_bound[OF p' assms(2)] have l: "length ids' < 12" by simp
    from addPass_covers[OF p'] assms(1)
    have "\<forall>sl \<in> set (candidates selected). \<not> notFound ids' (slot_id sl)"
      by (auto simp: notFound_iff)
    from addPass_nothing_new[OF this l] have "addPass selected ids' 0 = (ids', 0, False)" .
    from addSlots_unfold[OF l this] have "addSlots selected ids' = ids'" by simp
    with u False p show ?thesis by simp
  qed
qed

lemma addFromSlots_added:
  "addFromSlots sls ids a = (ids', a', brk) \<Longrightarrow> a' \<le> a + length sls"
proof (induction sls arbitrary: ids a)
  case Nil
  then show ?case by simp
next
  case (Cons sl rest)
  let ?ids1 = "if notFound ids (slot_id sl) then ids @ [slot_id sl] else ids"
  let ?a1 = "if notFound ids (slot_id sl) then a + 1 else a"
  show ?case
  proof (cases "length ?ids1 \<ge> 12")
    case True
    with Cons.prems have "a' = ?a1" by (auto split: if_splits)
    then show ?thesis by simp
  next
    case False
    with Cons.prems have "addFromSlots rest ?ids1 ?a1 = (ids', a', brk)"
      by (auto split: if_splits)
    from Cons.IH[OF this] show ?thesis by (simp split: if_splits)
  qed
qed

text \<open>
  So one selected appointment adds at most three ids to a token, however many open
  slots it has.
\<close>

lemma single_appointment_adds_at_most_three:
  assumes "\<forall>sl \<in> set (ap_slotData oa). slot_id sl \<noteq> []"
  shows "length (addSlots [oa] ids) \<le> length ids + 3"
proof (cases "length ids < 12")
  case False
  then show ?thesis by (simp add: addSlots_full)
next
  case True
  let ?sls = "take 3 (filter slot_open (ap_slotData oa))"
  obtain ids' a' brk where f: "addFromSlots ?sls ids 0 = (ids', a', brk)"
    by (cases "addFromSlots ?sls ids 0") auto
  then have p: "addPass [oa] ids 0 = (ids', a', brk)" by simp
  have "\<forall>sl \<in> set (candidates [oa]). slot_id sl \<noteq> []"
    using assms by (auto simp: candidates_def dest: in_set_takeD)
  from addSlots_one_pass[OF this True] p have "addSlots [oa] ids = ids'" by simp
  moreover from addFromSlots_length[OF f] addFromSlots_added[OF f]
  have "length ids' \<le> length ids + 3" by simp
  ultimately show ?thesis by simp
qed

section \<open>Refill sizing\<close>

text \<open>
  C7. When the cycle reaches the refill step (the lock is held, there are open
  appointments, and reporting the expired tokens did not fail), and
  \<open>openSlots * 5 - liveCount\<close> is positive with fewer than 1000 live tokens, the
  cycle makes exactly one request to the allocator, for
  \<open>max 0 (openSlots * 5 - liveCount)\<close> tokens. With ten open slots and an empty pool
  the request is for 50 tokens.
\<close>

theorem refill_requests_deficit:
  assumes "lock_ok e" and "appointments_open st \<noteq> []"
    and "filter (isExpired (now e)) (tokens_open st) = [] \<or> returnTokens_err e = None"
    and "0 < int (countOpenSlots (futureAppointments e st)) * 5 - int (length (liveTokens e st))"
    and "length (liveTokens e st) < 1000"
  shows "filter isGetQueueTokens (sr_calls (sendInvitations e st kp vpd)) =
    [GetQueueTokens (nat (max 0 (int (countOpenSlots (futureAppointments e st)) * 5
        - int (length (liveTokens e st)))))]"
proof -
  let ?n = "refillCount (countOpenSlots (futureAppointments e st)) (length (liveTokens e st))"
  have n: "?n = nat (max 0 (int (countOpenSlots (futureAppointments e st)) * 5
        - int (length (liveTokens e st))))"
    by (simp add: refillCount_def overbookingFactor_def)
  have pos: "?n > 0" using assms(4) by (simp add: refillCount_def overbookingFactor_def)
  note rc = refill_calls_request[OF refl pos assms(5), of e vpd]
  show ?thesis
  proof (cases "refill e vpd (countOpenSlots (futureAppointments e st)) (liveTokens e st)")
    case (RefillReturn oc cs)
    with rc have "cs = [GetQueueTokens ?n]" by simp
    with RefillReturn assms(1-3) n show ?thesis
      unfolding sendInvitations_def Let_def by auto
  next
    case (RefillDone heap pool cs)
    with rc have cs: "cs = [GetQueueTokens ?n]" by simp
    obtain h' ds c2 where tl: "tokenLoop e kp (selectedAppointments e st) pool (heap, [], []) = (h', ds, c2)"
      by (cases "tokenLoop e kp (selectedAppointments e st) pool (heap, [], [])") auto
    from tokenLoop_calls[OF tl] have "filter isGetQueueTokens c2 = []"
      by (simp add: signGrant_not_request)
    with RefillDone cs tl assms(1-3) n show ?thesis
      unfolding sendInvitations_def Let_def by auto
  qed
qed


theorem refill_requests_deficit_witness:
  "filter isGetQueueTokens (sr_calls (sendInvitations demoEnv tenSlotStore demoKeys demoVpd)) =
     [GetQueueTokens 50]"
  using refill_requests_deficit[of demoEnv tenSlotStore demoKeys demoVpd]
  by (simp add: demoEnv_def tenSlotStore_def countOpenSlots_def futureAppointments_def
      liveTokens_def hour_def openSlot_def)

section \<open>The empty appointment list\<close>

text \<open>
  C10. When the lock is acquired and the open-appointment list is empty, the cycle
  returns \<open>succeeded\<close> at once: the token pool in the local store is left as it
  was, expired tokens included, and no call is made: no \<^verbatim>\<open>returnTokens\<close>, no
  refill request, no grant is signed and nothing is submitted.
\<close>

theorem empty_appointments_no_effect:
  assumes "lock_ok e" and "appointments_open st = []"
  shows "sendInvitations e st kp vpd =
    \<lparr>sr_completion = Returned (Some (statusOnly succeeded)),
     sr_tokens = tokens_open st, sr_calls = []\<rparr>"
  using assms by (simp add: sendInvitations_def)

theorem empty_appointments_no_effect_witness:
  "isExpired (now demoEnv) (expiredToken ''A'') \<and>
   sendInvitations demoEnv expiredOnlyStore demoKeys demoVpd =
    \<lparr>sr_completion = Returned (Some (statusOnly succeeded)),
     sr_tokens = [expiredToken ''A''], sr_calls = []\<rparr>"
  using empty_appointments_no_effect[of demoEnv expiredOnlyStore demoKeys demoVpd]
  by (simp add: demoEnv_def expiredOnlyStore_def isExpired_def expiredToken_def liveToken_def)

section \<open>Reconciliation keeps every id whose slot exists\<close>

text \<open>
  The ownership test compares a boolean with a string, so it never holds: the filter
  callback answers \<open>False\<close> only for an id without a slot.
\<close>

lemma ownership_test_never_holds: "\<not> strict_eq (js_not (JStr owner)) (JStr secret)"
  by (simp add: js_not_def)

lemma keepSlotID_existing:
  "byId i = Some sl \<Longrightarrow> keepSlotID byId token i \<noteq> Returned False"
  by (simp add: keepSlotID_def ownership_test_never_holds split: option.splits)

text \<open>
  C1. Token \<open>A\<close> holds the id of a slot that is closed and owned by token \<open>B\<close>.
  After the cycle the id is still in the token's list: it has not been dropped, as
  \<open>keepSlotID_existing\<close> says of every id whose slot exists.
\<close>

theorem reconcile_keeps_foreign_closed_slot:
  "map tk_slotIDs (sr_tokens (sendInvitations demoEnv takenSlotStore demoKeys demoVpd))
     = [Some [''s1'']]"
  by code_simp

section \<open>Top-up from a single appointment\<close>

text \<open>
  C3. A token without slot ids and one selected appointment with twelve open slots:
  the first pass adds the first three open slots, the second pass looks at the same
  three and adds nothing, and the loop ends with three ids, not twelve. In general
  the loop is a single pass (\<open>addSlots_one_pass\<close>), and one appointment adds at
  most three ids (\<open>single_appointment_adds_at_most_three\<close>).
\<close>

theorem topup_single_appointment_stops_at_three:
  "map tk_slotIDs (sr_tokens (sendInvitations demoEnv twelveSlotStore demoKeys demoVpd))
     = [Some [''s00'', ''s01'', ''s02'']]"
  by code_simp

section \<open>The bound on a token's slot ids\<close>

definition slotCount :: "qtoken \<Rightarrow> nat" where
  "slotCount t = (case tk_slotIDs t of None \<Rightarrow> 0 | Some ids \<Rightarrow> length ids)"

lemma filterThrowing_length:
  "filterThrowing p xs = Returned ys \<Longrightarrow> length ys \<le> length xs"
proof (induction xs arbitrary: ys)
  case Nil
  then show ?case by simp
next
  case (Cons x xs)
  then show ?case by (fastforce split: completion.splits if_splits)
qed

lemma initToken_slotIDs: "slotIDsOf (initToken e r t) = slotIDsOf t"
  by (simp add: initToken_def slotIDsOf_def Let_def)

lemma slotCount_slotIDsOf: "slotCount t = length (slotIDsOf t)"
  by (simp add: slotCount_def slotIDsOf_def split: option.splits)

lemma processToken_slotCount:
  assumes "slotCount t \<le> 12"
  shows "slotCount (fst (processToken e kp selected r t)) \<le> 12"
proof (cases "reconcile selected (initToken e r t)")
  case (Thrown x)
  then show ?thesis using assms
    by (simp add: processToken_def Let_def slotCount_slotIDsOf initToken_slotIDs)
next
  case (Returned kept)
  then have "length kept \<le> length (slotIDsOf t)"
    using filterThrowing_length[of _ "slotIDsOf (initToken e r t)" kept]
    by (simp add: reconcile_def initToken_slotIDs)
  with assms have "length kept \<le> 12" by (simp add: slotCount_slotIDsOf)
  from addSlots_bound[OF this] Returned show ?thesis
    by (simp add: processToken_def Let_def topUp_def slotCount_def split: prod.splits)
qed

lemma tokenLoop_invariant:
  assumes "tokenLoop e kp selected pool (heap, ds, cs) = (heap', ds', cs')"
    and "\<forall>t \<in> set heap. slotCount t \<le> 12"
  shows "length heap' = length heap \<and> (\<forall>t \<in> set heap'. slotCount t \<le> 12)"
  using assms
proof (induction pool arbitrary: heap ds cs)
  case Nil
  then show ?case by simp
next
  case (Cons r rest)
  show ?case
  proof (cases "r < length heap")
    case True
    obtain t' sub c' where p: "processToken e kp selected r (heap ! r) = (t', sub, c')"
      by (cases "processToken e kp selected r (heap ! r)") auto
    from Cons.prems(1) True p
    have step: "tokenLoop e kp selected rest
        (heap[r := t'], ds @ (case sub of None \<Rightarrow> [] | Some d \<Rightarrow> [d]), cs @ c') = (heap', ds', cs')"
      by simp
    have "slotCount (heap ! r) \<le> 12" using True Cons.prems(2) by simp
    from processToken_slotCount[OF this, of e kp selected r] p have "slotCount t' \<le> 12" by simp
    with Cons.prems(2) have "\<forall>t \<in> set (heap[r := t']). slotCount t \<le> 12"
      by (metis in_set_conv_nth length_list_update nth_list_update_eq nth_list_update_neq)
    from Cons.IH[OF step this] show ?thesis by simp
  next
    case False
    with Cons show ?thesis by simp
  qed
qed

lemma decryptList_invariant:
  assumes "decryptList e vpd ts (heap, v) = Returned (heap', v')"
    and "\<forall>t \<in> set heap. slotCount t \<le> 12"
  shows "\<forall>t \<in> set heap'. slotCount t \<le> 12"
  using assms
proof (induction ts arbitrary: heap v)
  case Nil
  then show ?case by simp
next
  case (Cons t rest)
  from Cons.prems(1) obtain k where k: "getQueuePrivateKey e (tk_queue t) (queuePrivateKeys vpd) = Returned k"
    by (auto split: completion.splits)
  show ?case
  proof (cases "ecdhDecrypt e t k")
    case None
    with k Cons.prems(1) have "decryptList e vpd rest (heap, v) = Returned (heap', v')" by simp
    from Cons.IH[OF this Cons.prems(2)] show ?thesis by simp
  next
    case (Some d)
    let ?t' = "t\<lparr>tk_data := Some d, tk_grantID := Some (randomBytes e (length heap)),
                  tk_slotIDs := Some [], tk_expiresAt := Some (now e + hour * 24)\<rparr>"
    from Some k Cons.prems(1)
    have step: "decryptList e vpd rest (heap @ [?t'], v @ [length heap]) = Returned (heap', v')"
      by (simp split: option.splits)
    have "\<forall>t \<in> set (heap @ [?t']). slotCount t \<le> 12"
      using Cons.prems(2) by (simp add: slotCount_def)
    from Cons.IH[OF step this] show ?thesis by simp
  qed
qed

lemma decryptList_length:
  "decryptList e vpd ts (heap, v) = Returned (heap', v') \<Longrightarrow> length v' \<le> length v + length ts"
proof (induction ts arbitrary: heap v)
  case Nil
  then show ?case by simp
next
  case (Cons t rest)
  from Cons.prems obtain k where k: "getQueuePrivateKey e (tk_queue t) (queuePrivateKeys vpd) = Returned k"
    by (auto split: completion.splits)
  show ?case
  proof (cases "ecdhDecrypt e t k")
    case None
    with k Cons.prems have "decryptList e vpd rest (heap, v) = Returned (heap', v')" by simp
    from Cons.IH[OF this] show ?thesis by simp
  next
    case (Some d)
    with k Cons.prems obtain h1 where
      "decryptList e vpd rest (h1, v @ [length heap]) = Returned (heap', v')"
      by (simp split: option.splits)
    from Cons.IH[OF this] show ?thesis by simp
  qed
qed

lemma decryptLists_invariant:
  assumes "decryptLists e vpd ls (heap, v, pool) = Returned (heap', pool')"
    and "\<forall>t \<in> set heap. slotCount t \<le> 12"
  shows "\<forall>t \<in> set heap'. slotCount t \<le> 12"
  using assms
proof (induction ls arbitrary: heap v pool)
  case Nil
  then show ?case by simp
next
  case (Cons l rest)
  from Cons.prems(1) obtain h1 v1 where d: "decryptList e vpd l (heap, v) = Returned (h1, v1)"
    by (auto split: completion.splits)
  with Cons.prems(1) have "decryptLists e vpd rest (h1, v1, pool @ v1) = Returned (heap', pool')" by simp
  from Cons.IH[OF this] decryptList_invariant[OF d Cons.prems(2)] show ?case by simp
qed

lemma refill_cases:
  "refill e vpd openSlots openTokens = RefillDone heap pool cs \<Longrightarrow>
     (heap = openTokens \<and> pool = [0 ..< length openTokens] \<and> cs = []
        \<and> \<not> (refillCount openSlots (length openTokens) > 0 \<and> length openTokens < 1000))
     \<or> (\<exists>newTokens. refillCount openSlots (length openTokens) > 0 \<and> length openTokens < 1000
          \<and> getQueueTokens e (refillCount openSlots (length openTokens)) = Returned (Some newTokens)
          \<and> decryptLists e vpd newTokens (openTokens, [], [0 ..< length openTokens])
              = Returned (heap, pool)
          \<and> cs = [GetQueueTokens (refillCount openSlots (length openTokens))])"
  unfolding refill_def Let_def
  by (auto split: if_splits completion.splits option.splits prod.splits)

lemma refill_invariant:
  assumes "refill e vpd openSlots openTokens = RefillDone heap pool cs"
    and "\<forall>t \<in> set openTokens. slotCount t \<le> 12"
  shows "\<forall>t \<in> set heap. slotCount t \<le> 12"
  using refill_cases[OF assms(1)] assms(2) decryptLists_invariant by blast

lemma deref_subset: "set (deref heap pool) \<subseteq> set heap"
  by (auto simp: deref_def)

lemma sendInvitations_tokens:
  "sr_tokens (sendInvitations e st kp vpd) = tokens_open st \<or>
   (\<exists>heap pool cs heap' ds c2.
      refill e vpd (countOpenSlots (futureAppointments e st)) (liveTokens e st)
        = RefillDone heap pool cs
      \<and> tokenLoop e kp (selectedAppointments e st) pool (heap, [], []) = (heap', ds, c2)
      \<and> sr_tokens (sendInvitations e st kp vpd) = deref heap' pool)"
  unfolding sendInvitations_def Let_def
  by (simp split: refillResult.splits prod.splits)

text \<open>
  C8, as amended. If every token of the starting pool has at most 12 slot ids, every
  token of the pool in the local store after the cycle has at most 12 slot ids,
  whatever the collaborators do.
\<close>

theorem slotIDs_bounded:
  assumes "\<forall>t \<in> set (tokens_open st). slotCount t \<le> 12"
  shows "\<forall>t \<in> set (sr_tokens (sendInvitations e st kp vpd)). slotCount t \<le> 12"
proof -
  from sendInvitations_tokens[of e st kp vpd] show ?thesis
  proof
    assume "sr_tokens (sendInvitations e st kp vpd) = tokens_open st"
    with assms show ?thesis by simp
  next
    assume "\<exists>heap pool cs heap' ds c2.
      refill e vpd (countOpenSlots (futureAppointments e st)) (liveTokens e st)
        = RefillDone heap pool cs
      \<and> tokenLoop e kp (selectedAppointments e st) pool (heap, [], []) = (heap', ds, c2)
      \<and> sr_tokens (sendInvitations e st kp vpd) = deref heap' pool"
    then obtain heap pool cs heap' ds c2 where
      rf: "refill e vpd (countOpenSlots (futureAppointments e st)) (liveTokens e st)
        = RefillDone heap pool cs"
      and tl: "tokenLoop e kp (selectedAppointments e st) pool (heap, [], []) = (heap', ds, c2)"
      and eq: "sr_tokens (sendInvitations e st kp vpd) = deref heap' pool"
      by blast
    have "\<forall>t \<in> set (liveTokens e st). slotCount t \<le> 12"
      using assms by (simp add: liveTokens_def)
    note h = refill_invariant[OF rf this]
    from tokenLoop_invariant[OF tl h] deref_subset[of heap' pool]
    have "\<forall>t \<in> set (deref heap' pool). slotCount t \<le> 12" by auto
    with eq show ?thesis by simp
  qed
qed

theorem slotIDs_bounded_witness:
  "list_all (\<lambda>t. slotCount t \<le> 12) (tokens_open twelveSlotStore) \<and>
   list_all (\<lambda>t. slotCount t \<le> 12)
     (sr_tokens (sendInvitations demoEnv twelveSlotStore demoKeys demoVpd))"
  using slotIDs_bounded[of twelveSlotStore demoEnv demoKeys demoVpd]
  by (simp add: list_all_iff twelveSlotStore_def liveToken_def slotCount_def)

text \<open>
  C8 as stated fails for a starting pool that already breaks the bound: a token with
  13 ids of open slots keeps all 13, since the filter only drops ids and the top-up
  loop is not entered.
\<close>

theorem slotIDs_unbounded_start_counterexample:
  "map slotCount (sr_tokens (sendInvitations demoEnv thirteenSlotStore demoKeys demoVpd))
     = [13]"
  by code_simp

section \<open>The size of the token pool\<close>

lemma deref_length_le: "length (deref heap pool) \<le> length pool"
  by (simp add: deref_def)

lemma deref_length_valid: "\<forall>r \<in> set pool. r < length heap \<Longrightarrow> length (deref heap pool) = length pool"
  by (simp add: deref_def)

lemma decryptLists_single:
  assumes "decryptLists e vpd ls (heap, [], pool) = Returned (heap', pool')"
    and "length ls \<le> 1"
  shows "length pool' \<le> length pool + length (concat ls)"
proof (cases ls)
  case Nil
  with assms show ?thesis by simp
next
  case (Cons l rest)
  with assms(2) have ls: "ls = [l]" by simp
  from assms(1) ls obtain h1 v1 where d: "decryptList e vpd l (heap, []) = Returned (h1, v1)"
    by (auto split: completion.splits)
  with assms(1) ls have "pool' = pool @ v1" by simp
  moreover have "length v1 \<le> length l"
    using decryptList_length[OF d] by simp
  ultimately show ?thesis using ls by simp
qed

definition honestAnswer :: "env \<Rightarrow> nat \<Rightarrow> bool" where
  "honestAnswer e n =
     (case getQueueTokens e n of
        Returned (Some ls) \<Rightarrow> length ls \<le> 1 \<and> length (concat ls) \<le> n
      | _ \<Rightarrow> True)"

lemma refill_pool_length:
  assumes "refill e vpd openSlots openTokens = RefillDone heap pool cs"
    and "honestAnswer e (refillCount openSlots (length openTokens))"
  shows "length pool \<le> max (length openTokens) (5 * openSlots)"
proof -
  let ?n = "refillCount openSlots (length openTokens)"
  from refill_cases[OF assms(1)] show ?thesis
  proof
    assume "heap = openTokens \<and> pool = [0 ..< length openTokens] \<and> cs = []
        \<and> \<not> (?n > 0 \<and> length openTokens < 1000)"
    then show ?thesis by simp
  next
    assume "\<exists>newTokens. ?n > 0 \<and> length openTokens < 1000
          \<and> getQueueTokens e ?n = Returned (Some newTokens)
          \<and> decryptLists e vpd newTokens (openTokens, [], [0 ..< length openTokens])
              = Returned (heap, pool)
          \<and> cs = [GetQueueTokens ?n]"
    then obtain newTokens where pos: "?n > 0"
      and g: "getQueueTokens e ?n = Returned (Some newTokens)"
      and d: "decryptLists e vpd newTokens (openTokens, [], [0 ..< length openTokens])
              = Returned (heap, pool)"
      by blast
    from assms(2) g have h: "length newTokens \<le> 1" "length (concat newTokens) \<le> ?n"
      by (simp_all add: honestAnswer_def)
    from decryptLists_single[OF d h(1)] h(2)
    have "length pool \<le> length openTokens + ?n" by simp
    moreover from pos have "length openTokens + ?n = 5 * openSlots"
      by (simp add: refillCount_def overbookingFactor_def)
    ultimately show ?thesis by simp
  qed
qed

lemma sendInvitations_pool_length:
  assumes "honestAnswer e (refillCount (countOpenSlots (futureAppointments e st))
              (length (liveTokens e st)))"
  shows "length (sr_tokens (sendInvitations e st kp vpd))
    \<le> max (length (tokens_open st)) (5 * countOpenSlots (futureAppointments e st))"
proof -
  from sendInvitations_tokens[of e st kp vpd] show ?thesis
  proof
    assume "sr_tokens (sendInvitations e st kp vpd) = tokens_open st"
    then show ?thesis by simp
  next
    assume "\<exists>heap pool cs heap' ds c2.
      refill e vpd (countOpenSlots (futureAppointments e st)) (liveTokens e st)
        = RefillDone heap pool cs
      \<and> tokenLoop e kp (selectedAppointments e st) pool (heap, [], []) = (heap', ds, c2)
      \<and> sr_tokens (sendInvitations e st kp vpd) = deref heap' pool"
    then obtain heap pool cs heap' ds c2 where
      rf: "refill e vpd (countOpenSlots (futureAppointments e st)) (liveTokens e st)
        = RefillDone heap pool cs"
      and eq: "sr_tokens (sendInvitations e st kp vpd) = deref heap' pool"
      by blast
    have "length (liveTokens e st) \<le> length (tokens_open st)"
      by (simp add: liveTokens_def)
    with refill_pool_length[OF rf assms] deref_length_le[of heap' pool] eq
    show ?thesis by simp
  qed
qed

text \<open>
  C2, as amended. When the allocator answers the request with at most one list that
  holds at most the requested number of tokens, the pool in the local store after the
  cycle has at most \<open>max (size of the starting pool) (5 * openSlots)\<close> tokens
  (\<open>sendInvitations_pool_length\<close>); so it has at most 1000 tokens when the starting
  pool has at most 1000 tokens and \<open>5 * openSlots\<close> is at most 1000. The test
  against 1000 only stops further requests; it does not limit the size of a request.
\<close>

theorem refill_pool_bound:
  assumes "honestAnswer e (refillCount (countOpenSlots (futureAppointments e st))
              (length (liveTokens e st)))"
    and "length (tokens_open st) \<le> 1000"
    and "5 * countOpenSlots (futureAppointments e st) \<le> 1000"
  shows "length (sr_tokens (sendInvitations e st kp vpd)) \<le> 1000"
  using sendInvitations_pool_length[OF assms(1), of kp vpd] assms(2,3) by simp

theorem refill_pool_bound_witness:
  "honestAnswer generousEnv 50 \<and>
   length (sr_tokens (sendInvitations generousEnv tenSlotStore demoKeys demoVpd)) \<le> 1000"
  using refill_pool_bound[of generousEnv tenSlotStore demoKeys demoVpd]
  by (simp add: honestAnswer_def generousEnv_def demoEnv_def tenSlotStore_def
      countOpenSlots_def futureAppointments_def liveTokens_def hour_def openSlot_def
      refillCount_def overbookingFactor_def)

definition decryptable :: "env \<Rightarrow> verifiedProviderData \<Rightarrow> qtoken \<Rightarrow> bool" where
  "decryptable e vpd t =
     (case getQueuePrivateKey e (tk_queue t) (queuePrivateKeys vpd) of
        Returned k \<Rightarrow> ecdhDecrypt e t k \<noteq> None
      | Thrown x \<Rightarrow> False)"

lemma tokenLoop_length:
  "tokenLoop e kp selected pool (heap, ds, cs) = (heap', ds', cs') \<Longrightarrow> length heap' = length heap"
proof (induction pool arbitrary: heap ds cs)
  case Nil
  then show ?case by simp
next
  case (Cons r rest)
  show ?case
  proof (cases "r < length heap")
    case True
    obtain t' sub c' where p: "processToken e kp selected r (heap ! r) = (t', sub, c')"
      by (cases "processToken e kp selected r (heap ! r)") auto
    from Cons.prems True p
    have "tokenLoop e kp selected rest
        (heap[r := t'], ds @ (case sub of None \<Rightarrow> [] | Some d \<Rightarrow> [d]), cs @ c') = (heap', ds', cs')"
      by simp
    from Cons.IH[OF this] show ?thesis by simp
  next
    case False
    with Cons show ?thesis by simp
  qed
qed

lemma decryptList_all_ok:
  assumes "\<forall>t \<in> set ts. decryptable e vpd t" and "\<forall>r. generateECDHKeyPair_err e r = None"
  shows "\<exists>heap'. decryptList e vpd ts (heap, v)
            = Returned (heap', v @ [length heap ..< length heap + length ts])
          \<and> length heap' = length heap + length ts"
  using assms
proof (induction ts arbitrary: heap v)
  case Nil
  then show ?case by simp
next
  case (Cons t rest)
  from Cons.prems obtain k d where
    k: "getQueuePrivateKey e (tk_queue t) (queuePrivateKeys vpd) = Returned k"
    and d: "ecdhDecrypt e t k = Some d"
    by (auto simp: decryptable_def split: completion.splits)
  let ?t' = "t\<lparr>tk_data := Some d, tk_grantID := Some (randomBytes e (length heap)),
                tk_slotIDs := Some [], tk_expiresAt := Some (now e + hour * 24)\<rparr>"
  from Cons.prems have "\<forall>t \<in> set rest. decryptable e vpd t" by simp
  from Cons.IH[OF this Cons.prems(2), of "heap @ [?t']" "v @ [length heap]"]
  obtain heap' where
    r: "decryptList e vpd rest (heap @ [?t'], v @ [length heap])
          = Returned (heap', (v @ [length heap]) @ [length (heap @ [?t']) ..< length (heap @ [?t']) + length rest])"
    and l: "length heap' = length (heap @ [?t']) + length rest"
    by blast
  have "[length heap ..< length heap + length (t # rest)]
          = length heap # [Suc (length heap) ..< Suc (length heap) + length rest]"
    by (simp add: upt_rec)
  with r l k d Cons.prems(2) show ?case by simp
qed

lemma sendInvitations_overshoot:
  assumes "lock_ok e" and "appointments_open st \<noteq> []"
    and "filter (isExpired (now e)) (tokens_open st) = []"
    and "refillCount (countOpenSlots (futureAppointments e st)) (length (liveTokens e st)) = n"
    and "n > 0" and "length (liveTokens e st) < 1000"
    and "getQueueTokens e n = Returned (Some [ts])"
    and "\<forall>t \<in> set ts. decryptable e vpd t"
    and "\<forall>r. generateECDHKeyPair_err e r = None"
  shows "length (sr_tokens (sendInvitations e st kp vpd)) = length (liveTokens e st) + length ts"
proof -
  let ?live = "liveTokens e st"
  from decryptList_all_ok[OF assms(8,9), of ?live "[]"] obtain heap where
    d: "decryptList e vpd ts (?live, []) = Returned (heap, [length ?live ..< length ?live + length ts])"
    and l: "length heap = length ?live + length ts"
    by auto
  let ?pool = "[0 ..< length ?live] @ [length ?live ..< length ?live + length ts]"
  have rf: "refill e vpd (countOpenSlots (futureAppointments e st)) ?live
      = RefillDone heap ?pool [GetQueueTokens n]"
    using assms(4-7) d by (simp add: refill_def Let_def)
  obtain heap' ds c2 where
    tl: "tokenLoop e kp (selectedAppointments e st) ?pool (heap, [], []) = (heap', ds, c2)"
    by (cases "tokenLoop e kp (selectedAppointments e st) ?pool (heap, [], [])") auto
  have res: "sr_tokens (sendInvitations e st kp vpd) = deref heap' ?pool"
    using assms(1-3) rf tl by (simp add: sendInvitations_def Let_def)
  have "\<forall>r \<in> set ?pool. r < length heap'"
    using tokenLoop_length[OF tl] l by auto
  from deref_length_valid[OF this] res show ?thesis by simp
qed

lemma crowded_openSlots: "countOpenSlots (futureAppointments generousEnv crowdedStore) = 201"
  by (simp add: countOpenSlots_def futureAppointments_def generousEnv_def demoEnv_def
      crowdedStore_def hour_def openSlot_def filter_map comp_def)

text \<open>
  C2 as stated fails: with 201 open slots and an empty pool the cycle asks for 1005
  tokens, and when the allocator delivers them the pool holds 1005 tokens.
\<close>

theorem refill_overshoots_cap:
  "length (tokens_open crowdedStore) = 0 \<and>
   length (sr_tokens (sendInvitations generousEnv crowdedStore demoKeys demoVpd)) = 1005"
proof -
  have live: "liveTokens generousEnv crowdedStore = []"
    by (simp add: liveTokens_def crowdedStore_def)
  have n: "refillCount (countOpenSlots (futureAppointments generousEnv crowdedStore))
      (length (liveTokens generousEnv crowdedStore)) = 1005"
    by (simp add: crowded_openSlots live refillCount_def overbookingFactor_def)
  have dec: "\<forall>t \<in> set (replicate 1005 rawToken). decryptable generousEnv demoVpd t"
    by (simp add: decryptable_def generousEnv_def demoEnv_def demoVpd_def rawToken_def)
  have a1: "lock_ok generousEnv" by (simp add: generousEnv_def demoEnv_def)
  have a2: "appointments_open crowdedStore \<noteq> []" by (simp add: crowdedStore_def)
  have a3: "filter (isExpired (now generousEnv)) (tokens_open crowdedStore) = []"
    by (simp add: crowdedStore_def)
  have a5: "(1005::nat) > 0" by simp
  have a6: "length (liveTokens generousEnv crowdedStore) < 1000" by (simp add: live)
  have a7: "getQueueTokens generousEnv 1005 = Returned (Some [replicate 1005 rawToken])"
    by (simp add: generousEnv_def)
  have gen: "\<forall>r. generateECDHKeyPair_err generousEnv r = None"
    by (simp add: generousEnv_def demoEnv_def)
  have "length (sr_tokens (sendInvitations generousEnv crowdedStore demoKeys demoVpd))
      = length (liveTokens generousEnv crowdedStore) + length (replicate 1005 rawToken)"
    by (rule sendInvitations_overshoot[OF a1 a2 a3 n a5 a6 a7 dec gen])
  then have "length (sr_tokens (sendInvitations generousEnv crowdedStore demoKeys demoVpd)) = 1005"
    by (simp add: live)
  moreover have "length (tokens_open crowdedStore) = 0" by (simp add: crowdedStore_def)
  ultimately show ?thesis by simp
qed

section \<open>Conflict on the first offer, success on the second\<close>

text \<open>
  C4. Two offers with one eligible slot each, the lock and the encryptions succeed,
  booking the first slot throws an \<^verbatim>\<open>RPCException\<close> with code 401 and booking the
  second succeeds: the call returns \<open>succeeded\<close> with the second offer and its slot,
  and the cache written to the store is the old one with the first slot marked taken.
\<close>

theorem conflict_then_success:
  assumes "u_lock_ok e" and "u_ecdhEncrypt_err e = None"
    and "uo_slotData offer1 = [slot1]" and "uo_slotData offer2 = [slot2]"
    and "eligible (invitation_slots st) slot1" and "eligible (invitation_slots st) slot2"
    and "\<forall>k. u_ephemeralECDHEncrypt_err e k offer1 = None"
    and "\<forall>k. u_ephemeralECDHEncrypt_err e k offer2 = None"
    and "\<forall>k. u_bookSlot_err e k (os_id slot1) = Some (RPCException 401)"
    and "\<forall>k. u_bookSlot_err e k (os_id slot2) = None"
  shows "cr_completion (confirmOffers e st [offer1, offer2])
           = Returned (withData succeeded (offer2, slot2))
       \<and> invitation_slots (cr_store (confirmOffers e st [offer1, offer2]))
           = (invitation_slots st)(os_id slot1 \<mapsto> StatusTaken)"
proof -
  from assms(9,10) have ne: "os_id slot1 \<noteq> os_id slot2" by auto
  have s1: "slotLoop e offer1 [slot1] (0, invitation_slots st, [])
      = (SlotsDone, (1, (invitation_slots st)(os_id slot1 \<mapsto> StatusTaken),
           [(os_id slot1, Some (RPCException 401))]))"
    using assms(5,7,9) by (simp add: eligible_def catchBookSlot_def)
  have s2: "slotLoop e offer2 [slot2] (1, (invitation_slots st)(os_id slot1 \<mapsto> StatusTaken),
           [(os_id slot1, Some (RPCException 401))])
      = (Booked slot2, (2, (invitation_slots st)(os_id slot1 \<mapsto> StatusTaken),
           [(os_id slot1, Some (RPCException 401)), (os_id slot2, None)]))"
    using assms(6,8,10) ne by (simp add: eligible_def)
  have "offerLoop e [offer1, offer2] (0, invitation_slots st, [])
      = (Some (offer2, slot2), (2, (invitation_slots st)(os_id slot1 \<mapsto> StatusTaken),
           [(os_id slot1, Some (RPCException 401)), (os_id slot2, None)]))"
    using s1 s2 assms(3,4) by simp
  then show ?thesis using assms(1,2) by (simp add: confirmOffers_def)
qed

theorem conflict_then_success_witness:
  "cr_completion (confirmOffers (slotOneThrows (RPCException 401)) emptyUserStore
      [offerOne, offerTwo])
     = Returned (withData succeeded (offerTwo, slotTwo))
   \<and> invitation_slots (cr_store (confirmOffers (slotOneThrows (RPCException 401))
        emptyUserStore [offerOne, offerTwo]))
     = Map.empty(''slot1'' \<mapsto> StatusTaken)"
  using conflict_then_success[where e = "slotOneThrows (RPCException 401)"
      and st = emptyUserStore and ?offer1.0 = offerOne and ?offer2.0 = offerTwo
      and ?slot1.0 = slotOne and ?slot2.0 = slotTwo]
  by (simp add: slotOneThrows_def emptyUserStore_def offerOne_def offerTwo_def slotOne_def
      slotTwo_def eligible_def)

section \<open>Errors of the booking call\<close>

text \<open>The effect of one booking call on the cache.\<close>

fun markAttempt :: "string \<times> thrown option \<Rightarrow> slotInfos \<Rightarrow> slotInfos" where
  "markAttempt (i, Some (RPCException code)) slotInfos =
     (if code = 401 then slotInfos(i \<mapsto> StatusTaken) else slotInfos(i \<mapsto> StatusError))"
| "markAttempt (i, _) slotInfos = slotInfos"

lemma slotLoop_cache:
  "slotLoop e offer slots (k, slotInfos, attempts) = (r, (k', slotInfos', attempts')) \<Longrightarrow>
     \<exists>new. attempts' = attempts @ new \<and> slotInfos' = fold markAttempt new slotInfos"
proof (induction slots arbitrary: k slotInfos attempts)
  case Nil
  then show ?case by simp
next
  case (Cons sd rest)
  show ?case
  proof (cases "os_failed sd \<or> \<not> os_open sd \<or> slotInfos (os_id sd) = Some StatusTaken")
    case True
    with Cons.prems have "slotLoop e offer rest (k, slotInfos, attempts) = (r, (k', slotInfos', attempts'))"
      by (auto split: if_splits)
    from Cons.IH[OF this] show ?thesis .
  next
    case False
    note el = this
    show ?thesis
    proof (cases "u_ephemeralECDHEncrypt_err e k offer")
      case (Some x)
      with el Cons.prems show ?thesis by auto
    next
      case None
      note enc = this
      show ?thesis
      proof (cases "u_bookSlot_err e k (os_id sd)")
        case None
        with el enc Cons.prems show ?thesis by auto
      next
        case (Some x)
        note bk = this
        show ?thesis
        proof (cases "catchBookSlot x (os_id sd) slotInfos")
          case (Thrown y)
          then have "x = ThrownNull" by (auto simp: catchBookSlot_def split: thrown.splits)
          with Thrown el enc bk Cons.prems show ?thesis by auto
        next
          case (Returned m)
          then have m: "m = markAttempt (os_id sd, Some x) slotInfos"
            by (auto simp: catchBookSlot_def split: thrown.splits)
          from Returned el enc bk Cons.prems
          have "slotLoop e offer rest (k + 1, m, attempts @ [(os_id sd, Some x)])
              = (r, (k', slotInfos', attempts'))" by auto
          from Cons.IH[OF this] obtain new where
            "attempts' = (attempts @ [(os_id sd, Some x)]) @ new" "slotInfos' = fold markAttempt new m"
            by blast
          with m have "attempts' = attempts @ ((os_id sd, Some x) # new)
              \<and> slotInfos' = fold markAttempt ((os_id sd, Some x) # new) slotInfos"
            by simp
          then show ?thesis by blast
        qed
      qed
    qed
  qed
qed

lemma offerLoop_cache:
  "offerLoop e offers (k, slotInfos, attempts) = (r, (k', slotInfos', attempts')) \<Longrightarrow>
     \<exists>new. attempts' = attempts @ new \<and> slotInfos' = fold markAttempt new slotInfos"
proof (induction offers arbitrary: k slotInfos attempts)
  case Nil
  then show ?case by simp
next
  case (Cons offer rest)
  obtain r1 k1 m1 a1 where
    s: "slotLoop e offer (uo_slotData offer) (k, slotInfos, attempts) = (r1, (k1, m1, a1))"
    by (metis prod_cases3)
  from slotLoop_cache[OF s] obtain new1 where
    n1: "a1 = attempts @ new1" "m1 = fold markAttempt new1 slotInfos" by blast
  show ?case
  proof (cases "\<exists>sd. r1 = Booked sd")
    case True
    with s Cons.prems n1 show ?thesis by auto
  next
    case False
    with s Cons.prems have "offerLoop e rest (k1, m1, a1) = (r, (k', slotInfos', attempts'))"
      by (cases r1) auto
    from Cons.IH[OF this] obtain new2 where
      "attempts' = a1 @ new2" "slotInfos' = fold markAttempt new2 m1" by blast
    with n1 have "attempts' = attempts @ (new1 @ new2)
        \<and> slotInfos' = fold markAttempt (new1 @ new2) slotInfos" by simp
    then show ?thesis by blast
  qed
qed

lemma confirmOffers_cache:
  "invitation_slots (cr_store (confirmOffers e st offers))
     = fold markAttempt (cr_attempts (confirmOffers e st offers)) (invitation_slots st)"
proof (cases "u_lock_ok e \<and> u_ecdhEncrypt_err e = None")
  case False
  then show ?thesis by (auto simp: confirmOffers_def)
next
  case True
  obtain r k m a where l: "offerLoop e offers (0, invitation_slots st, []) = (r, (k, m, a))"
    by (metis prod_cases3)
  from offerLoop_cache[OF l] have "m = fold markAttempt a (invitation_slots st)" by simp
  with True l show ?thesis by (cases r) (auto simp: confirmOffers_def)
qed

text \<open>
  C5, as amended. When the booking call for an eligible slot throws an
  \<^verbatim>\<open>RPCException\<close> whose code is not 401, the slot's id is marked \<open>error\<close> in
  the cache and the iteration goes on with the next slot of the offer and then the
  remaining offers. By \<open>confirmOffers_cache\<close> nothing but an \<^verbatim>\<open>RPCException\<close> of
  a booking call ever changes the cache.
\<close>

theorem rpc_error_marks_slot:
  assumes "eligible slotInfos slotData"
    and "u_ephemeralECDHEncrypt_err e k offer = None"
    and "u_bookSlot_err e k (os_id slotData) = Some (RPCException code)"
    and "code \<noteq> 401"
  shows "confirmFrom e offer (slotData # rest) offers (k, slotInfos, attempts)
    = confirmFrom e offer rest offers
        (k + 1, slotInfos(os_id slotData \<mapsto> StatusError),
         attempts @ [(os_id slotData, Some (RPCException code))])"
  using assms by (simp add: confirmFrom_def eligible_def catchBookSlot_def)

theorem rpc_error_marks_slot_witness:
  "confirmFrom (slotOneThrows (RPCException 500)) twoSlotOffer [slotOne, slotTwo] []
      (0, Map.empty, [])
     = (Some (twoSlotOffer, slotTwo),
        (2, Map.empty(''slot1'' \<mapsto> StatusError),
         [(''slot1'', Some (RPCException 500)), (''slot2'', None)]))"
  using rpc_error_marks_slot[where e = "slotOneThrows (RPCException 500)"
      and offer = twoSlotOffer and slotData = slotOne and rest = "[slotTwo]" and offers = "[]"
      and k = 0 and slotInfos = Map.empty and attempts = "[]" and code = 500]
  by (simp add: slotOneThrows_def slotOne_def slotTwo_def eligible_def confirmFrom_def)

text \<open>
  C5 as stated fails for errors that are not an \<^verbatim>\<open>RPCException\<close>. When the
  encryption of the proof fails, the slot is not marked, the other slots of the offer
  are skipped and the call fails although the second slot could be booked. When the
  booking call throws another kind of error, the loop goes on to the second slot but
  the first is not marked.
\<close>

theorem local_errors_not_marked_counterexample:
  "cr_completion (confirmOffers firstEncryptionFails emptyUserStore [twoSlotOffer])
     = Returned (statusOnly failed)
   \<and> invitation_slots (cr_store (confirmOffers firstEncryptionFails emptyUserStore
        [twoSlotOffer])) = Map.empty
   \<and> cr_attempts (confirmOffers firstEncryptionFails emptyUserStore [twoSlotOffer]) = []
   \<and> cr_completion (confirmOffers (slotOneThrows OtherError) emptyUserStore [twoSlotOffer])
     = Returned (withData succeeded (twoSlotOffer, slotTwo))
   \<and> invitation_slots (cr_store (confirmOffers (slotOneThrows OtherError) emptyUserStore
        [twoSlotOffer])) = Map.empty"
  by (simp add: confirmOffers_def firstEncryptionFails_def slotOneThrows_def emptyUserStore_def
      twoSlotOffer_def slotOne_def slotTwo_def catchBookSlot_def)

section \<open>How the entry points complete\<close>














text \<open>
  What the model says of the paths that the amended claim leaves out: in the
  provider's \<^verbatim>\<open>keyPairs\<close> a generator that rejects with \<^verbatim>\<open>null\<close> makes the
  handler itself throw, and the lock's error escapes from it and from
  \<^verbatim>\<open>createAppointment\<close>, which have no handler for it.
\<close>

lemma keyPairs_null_rejection_escapes:
  "kr_completion (keyPairs nullRejectionEnv None) = Thrown TypeError"
  by (simp add: keyPairs_def nullRejectionEnv_def keyEnvWith_def generateKeyPairs_def
      failedToString_def finallyUnlock_def)

lemma lock_error_escapes_without_handler:
  "kr_completion (keyPairs (keyEnvWith (Some OtherError)) None) = Thrown OtherError
   \<and> ca_completion (createAppointment (createEnvWith (Some OtherError)) [] newAppointment)
        = Thrown OtherError"
  by (simp add: keyPairs_def keyEnvWith_def createAppointment_def createEnvWith_def
      finallyUnlock_def)




section \<open>Running the cycle twice\<close>

subsection \<open>The slot index\<close>

lemma fold_upd_map_of:
  "fold (\<lambda>x m. m(key x \<mapsto> x)) xs m = m ++ map_of (rev (map (\<lambda>x. (key x, x)) xs))"
proof (induction xs arbitrary: m)
  case Nil
  then show ?case by simp
next
  case (Cons x xs)
  have "fold (\<lambda>x m. m(key x \<mapsto> x)) (x # xs) m = fold (\<lambda>x m. m(key x \<mapsto> x)) xs (m(key x \<mapsto> x))"
    by (simp only: fold_simps)
  also have "\<dots> = m(key x \<mapsto> x) ++ map_of (rev (map (\<lambda>x. (key x, x)) xs))"
    by (rule Cons.IH)
  also have "\<dots> = m ++ map_of (rev (map (\<lambda>x. (key x, x)) (x # xs)))"
    by (rule ext) (simp add: map_add_def split: option.splits)
  finally show ?case .
qed

lemma fold_appointments_map_of:
  "fold (\<lambda>oa m. fold (\<lambda>sl m'. m'(slot_id sl \<mapsto> sl)) (ap_slotData oa) m) aps m0
     = m0 ++ map_of (rev (map (\<lambda>sl. (slot_id sl, sl)) (allSlots aps)))"
proof (induction aps arbitrary: m0)
  case Nil
  then show ?case by (simp add: allSlots_def)
next
  case (Cons oa rest)
  let ?f = "\<lambda>oa m. fold (\<lambda>sl m'. m'(slot_id sl \<mapsto> sl)) (ap_slotData oa) m"
  let ?g = "\<lambda>sl. (slot_id sl, sl)"
  have "fold ?f (oa # rest) m0 = fold ?f rest (?f oa m0)"
    by (simp only: fold_simps)
  also have "\<dots> = ?f oa m0 ++ map_of (rev (map ?g (allSlots rest)))"
    by (rule Cons.IH)
  also have "?f oa m0 = m0 ++ map_of (rev (map ?g (ap_slotData oa)))"
    by (rule fold_upd_map_of)
  also have "m0 ++ map_of (rev (map ?g (ap_slotData oa))) ++ map_of (rev (map ?g (allSlots rest)))
      = m0 ++ map_of (rev (map ?g (allSlots (oa # rest))))"
    by (simp add: allSlots_def)
  finally show ?case .
qed

lemma slotsById_map_of:
  "slotsById selected = map_of (rev (map (\<lambda>sl. (slot_id sl, sl)) (allSlots selected)))"
  by (simp add: slotsById_def fold_appointments_map_of)

lemma slotsById_SomeD:
  "slotsById selected i = Some sl \<Longrightarrow> sl \<in> set (allSlots selected) \<and> slot_id sl = i"
  by (auto simp: slotsById_map_of dest!: map_of_SomeD)


subsection \<open>Processing a token a second time\<close>



lemma filterThrowing_cong:
  "\<forall>x \<in> set xs. p x = q x \<Longrightarrow> filterThrowing p xs = filterThrowing q xs"
  by (induction xs) (auto split: completion.splits)















subsection \<open>A pool without repeated references\<close>







subsection \<open>The second run\<close>












end
